theory Spec2Isabelle
  imports Complex_Main
begin

section \<open>Data model\<close>

text \<open>
  JavaScript numbers are modelled by their real values, with the rounding of binary64
  arithmetic made explicit (section "JavaScript numbers"): the loop counter of the
  segmenter, the chunk bounds and the write cursor of the resynthesizer are all
  \<open>number\<close> in the source and may take non-integer values. Counts that the platform
  keeps integral (array lengths, channel counts, the sample rate of an \<open>AudioBuffer\<close>)
  are \<^typ>\<open>nat\<close>. A \<open>Float32Array\<close> is a \<^typ>\<open>real list\<close>.
\<close>

datatype error =
    Error string          \<comment> \<open>\<open>throw new Error(message)\<close>\<close>
  | RangeError            \<comment> \<open>\<open>TypedArray.prototype.set\<close> out of bounds\<close>
  | NotSupportedError     \<comment> \<open>\<open>createBuffer\<close> with a value outside its nominal range\<close>
  | IndexSizeError        \<comment> \<open>\<open>getChannelData\<close> with a channel that does not exist\<close>
  | EncodingError         \<comment> \<open>\<open>decodeAudioData\<close> rejected the file\<close>
  | TypeError             \<comment> \<open>a property of \<open>undefined\<close> was read\<close>

text \<open>\<open>types.ts\<close>: \<open>Settings\<close> and \<open>SpeechChunk\<close>.\<close>

record Settings =
  silenceThreshold :: real
  minSilenceDuration :: real
  pauseMultiplier :: real

record SpeechChunk =
  start :: real
  end' :: real

text \<open>The Web Audio \<open>AudioBuffer\<close>: sample rate, length in frames, one array per channel.\<close>

record AudioBuffer =
  sampleRate :: nat
  buf_length :: nat
  channels :: "real list list"

definition numberOfChannels :: "AudioBuffer \<Rightarrow> nat" where
  "numberOfChannels b = length (channels b)"

definition getChannelData :: "AudioBuffer \<Rightarrow> nat \<Rightarrow> error + real list" where
  "getChannelData b c =
     (if c < numberOfChannels b then Inr (channels b ! c) else Inl IndexSizeError)"

text \<open>The invariants the platform keeps for every \<open>AudioBuffer\<close> it hands out.\<close>

definition wf_buffer :: "AudioBuffer \<Rightarrow> bool" where
  "wf_buffer b \<longleftrightarrow>
     0 < sampleRate b \<and> 0 < buf_length b \<and> channels b \<noteq> [] \<and>
     list_all (\<lambda>c. length c = buf_length b) (channels b)"

section \<open>JavaScript numbers\<close>

text \<open>
  A \<open>number\<close> is an IEEE 754 binary64 value. The model keeps its real value and rounds
  the result of every arithmetic operation of the source with \<open>fl64\<close>: to the nearest
  value with a 53-bit significand, ties to the even significand. \<open>roundTiesToEven\<close> is
  that rounding to an integer; \<open>fl64_pos\<close> doubles its argument until the significand is
  an integer below \<open>2^53\<close> and rounds there. Not modelled: \<open>NaN\<close>, the infinities and
  overflow, subnormal numbers, and the spacing of binary64 at magnitudes of \<open>2^53\<close> and
  above, where \<open>fl64\<close> rounds to the nearest integer.
\<close>

definition roundTiesToEven :: "real \<Rightarrow> int" where
  "roundTiesToEven x =
     (let f = \<lfloor>x\<rfloor>; r = x - of_int f
      in if r < 1 / 2 then f else if r > 1 / 2 then f + 1 else if even f then f else f + 1)"

function fl64_pos :: "real \<Rightarrow> real" where
  "fl64_pos x =
     (if 0 < x \<and> x < 2 ^ 52 then fl64_pos (2 * x) / 2 else of_int (roundTiesToEven x))"
  by pat_completeness auto
termination
proof (relation "measure (\<lambda>x. nat \<lceil>2 ^ 52 / x\<rceil>)")
  show "wf (measure (\<lambda>x. nat \<lceil>2 ^ 52 / x\<rceil>))"
    by simp
next
  fix x :: real
  assume a: "0 < x \<and> x < 2 ^ 52"
  let ?y = "2 ^ 52 / x"
  from a have y: "1 < ?y"
    by simp
  then have c: "2 \<le> \<lceil>?y\<rceil>"
    by linarith
  have "?y / 2 \<le> of_int \<lceil>?y\<rceil> / 2"
    by simp
  also have "\<dots> \<le> of_int (\<lceil>?y\<rceil> - 1)"
    using c by simp
  finally have "\<lceil>?y / 2\<rceil> \<le> \<lceil>?y\<rceil> - 1"
    by (simp only: ceiling_le_iff)
  with c have lt: "nat \<lceil>?y / 2\<rceil> < nat \<lceil>?y\<rceil>"
    by linarith
  have eq: "2 ^ 52 / (2 * x) = ?y / 2"
    by simp
  show "(2 * x, x) \<in> measure (\<lambda>x. nat \<lceil>2 ^ 52 / x\<rceil>)"
    unfolding in_measure eq by (rule lt)
qed

declare fl64_pos.simps [simp del]

definition fl64 :: "real \<Rightarrow> real" where
  "fl64 x = (if x < 0 then - fl64_pos (- x) else fl64_pos x)"


section \<open>Silence segmentation: \<open>detectSpeechChunks\<close>\<close>

text \<open>
  \<open>channelData[i]\<close> for a \<open>number\<close> \<open>i\<close>: the element when \<open>i\<close> is an integer index in
  range, \<open>undefined\<close> otherwise (\<open>None\<close>).
\<close>

definition getSample :: "real list \<Rightarrow> real \<Rightarrow> real option" where
  "getSample xs i =
     (if 0 \<le> i \<and> i < real (length xs) \<and> of_int \<lfloor>i\<rfloor> = i
      then Some (xs ! nat \<lfloor>i\<rfloor>) else None)"

text \<open>
  \<open>Math.abs(channelData[i]) > silenceThreshold\<close> and \<open>Math.abs(channelData[i]) < silenceThreshold\<close>.
  \<open>Math.abs(undefined)\<close> is \<open>NaN\<close>, and every comparison with \<open>NaN\<close> is false.
\<close>

definition exceedsThreshold :: "real list \<Rightarrow> real \<Rightarrow> real \<Rightarrow> bool" where
  "exceedsThreshold xs thr i =
     (case getSample xs i of None \<Rightarrow> False | Some v \<Rightarrow> \<bar>v\<bar> > thr)"

definition belowThreshold :: "real list \<Rightarrow> real \<Rightarrow> real \<Rightarrow> bool" where
  "belowThreshold xs thr i =
     (case getSample xs i of None \<Rightarrow> False | Some v \<Rightarrow> \<bar>v\<bar> < thr)"

text \<open>
  The inner loop, lines 28-34: \<open>for (j = i; j < i + minSilenceSamples && j < length; j++)\<close>.
  \<open>stop\<close> is the value of \<open>i + minSilenceSamples\<close> for the \<open>i\<close> of the enclosing
  iteration (the only assignment to \<open>i\<close> inside is followed by \<open>break\<close>). The loop is
  entered only at an index \<open>i\<close> of the array, so \<open>j\<close> is an integer below the array
  length and \<open>j++\<close> is exact. The result is \<open>Some j\<close> for the \<open>j\<close> at which the loop
  breaks (\<open>isSilenceLongEnough = false\<close>), \<open>None\<close> when the loop runs out
  (\<open>isSilenceLongEnough\<close> is still true).
\<close>

function lookahead :: "real list \<Rightarrow> real \<Rightarrow> real \<Rightarrow> real \<Rightarrow> real option" where
  "lookahead xs thr stop j =
     (if j < stop \<and> j < real (length xs)
      then (if exceedsThreshold xs thr j then Some j else lookahead xs thr stop (j + 1))
      else None)"
  by pat_completeness auto
termination
proof (relation "measure (\<lambda>(xs, thr, stop, j). nat \<lceil>real (length xs) - j\<rceil>)")
  show "wf (measure (\<lambda>(xs, thr, stop, j). nat \<lceil>real (length xs) - j\<rceil>))"
    by simp
next
  fix xs :: "real list" and thr stop j :: real
  assume "j < stop \<and> j < real (length xs)"
  then have "0 < \<lceil>real (length xs) - j\<rceil>"
    by simp
  moreover have "\<lceil>real (length xs) - (j + 1)\<rceil> = \<lceil>real (length xs) - j\<rceil> - 1"
  proof -
    have "real (length xs) - (j + 1) = (real (length xs) - j) - 1"
      by simp
    then show ?thesis
      by (simp only: ceiling_diff_one)
  qed
  ultimately show "((xs, thr, stop, j + 1), (xs, thr, stop, j))
      \<in> measure (\<lambda>(xs, thr, stop, j). nat \<lceil>real (length xs) - j\<rceil>)"
    by simp
qed

declare lookahead.simps [simp del]

text \<open>The state of the outer loop: \<open>i\<close>, \<open>speechStart\<close> and \<open>chunks\<close>.\<close>

record scan_state =
  st_i :: real
  st_speechStart :: real
  st_chunks :: "SpeechChunk list"

text \<open>
  One pass through the body of the outer loop (lines 21-41), followed by its \<open>i++\<close>.
  \<open>i + minSilenceSamples\<close> is rounded where the source computes it: in the test of the
  inner loop and in \<open>i += minSilenceSamples\<close>.
\<close>

definition iteration :: "real list \<Rightarrow> real \<Rightarrow> real \<Rightarrow> scan_state \<Rightarrow> scan_state" where
  "iteration xs thr m s =
     (let i = st_i s;
          speechStart = (if exceedsThreshold xs thr i \<and> st_speechStart s < 0
                         then i else st_speechStart s)
      in if belowThreshold xs thr i \<and> speechStart \<ge> 0
         then (case lookahead xs thr (fl64 (i + m)) i of
                 Some j \<Rightarrow>
                   \<lparr>st_i = fl64 (j + 1), st_speechStart = speechStart, st_chunks = st_chunks s\<rparr>
               | None \<Rightarrow>
                   \<lparr>st_i = fl64 (fl64 (i + m) + 1), st_speechStart = - 1,
                    st_chunks = st_chunks s @ [\<lparr>start = speechStart, end' = i\<rparr>]\<rparr>)
         else \<lparr>st_i = fl64 (i + 1), st_speechStart = speechStart, st_chunks = st_chunks s\<rparr>)"

text \<open>
  The outer loop, line 20: \<open>for (let i = 0; i < channelData.length; i++)\<close>. The body can
  move \<open>i\<close> backwards when \<open>minSilenceSamples\<close> is negative, so the loop need not end:
  \<open>None\<close> is "does not return".
\<close>

partial_function (option) scan :: "real list \<Rightarrow> real \<Rightarrow> real \<Rightarrow> scan_state \<Rightarrow> scan_state option" where
  "scan xs thr m s =
     (if st_i s < real (length xs) then scan xs thr m (iteration xs thr m s) else Some s)"

declare scan.simps [code]

definition minSilenceSamples :: "AudioBuffer \<Rightarrow> Settings \<Rightarrow> real" where
  "minSilenceSamples audioBuffer settings =
     fl64 (real (sampleRate audioBuffer) * minSilenceDuration settings)"

definition detectSpeechChunks :: "AudioBuffer \<Rightarrow> Settings \<Rightarrow> (error + SpeechChunk list) option" where
  "detectSpeechChunks audioBuffer settings =
     (case getChannelData audioBuffer 0 of
        Inl e \<Rightarrow> Some (Inl e)
      | Inr channelData \<Rightarrow>
          (case scan channelData (silenceThreshold settings)
                  (minSilenceSamples audioBuffer settings)
                  \<lparr>st_i = 0, st_speechStart = - 1, st_chunks = []\<rparr> of
             None \<Rightarrow> None
           | Some s \<Rightarrow>
               Some (Inr (if st_speechStart s \<ge> 0
                          then st_chunks s @
                               [\<lparr>start = st_speechStart s, end' = real (length channelData)\<rparr>]
                          else st_chunks s))))"

section \<open>Platform functions\<close>

text \<open>\<open>Math.round\<close> (halves go up) and the truncation \<open>ToIntegerOrInfinity\<close>.\<close>

definition js_round :: "real \<Rightarrow> int" where
  "js_round x = \<lfloor>x + 1 / 2\<rfloor>"

definition js_trunc :: "real \<Rightarrow> int" where
  "js_trunc x = (if 0 \<le> x then \<lfloor>x\<rfloor> else \<lceil>x\<rceil>)"

text \<open>
  \<open>TypedArray.prototype.subarray(begin, end)\<close>: both arguments are truncated, a negative
  one counts from the end, and both are clamped to the array.
\<close>

definition relativeIndex :: "nat \<Rightarrow> real \<Rightarrow> nat" where
  "relativeIndex len x =
     (let r = js_trunc x in if r < 0 then nat (max (int len + r) 0) else nat (min r (int len)))"

definition subarray :: "'a list \<Rightarrow> real \<Rightarrow> real \<Rightarrow> 'a list" where
  "subarray xs b e =
     (let beginIndex = relativeIndex (length xs) b;
          endIndex = relativeIndex (length xs) e
      in take (endIndex - beginIndex) (drop beginIndex xs))"

text \<open>
  \<open>TypedArray.prototype.set(source, offset)\<close>: a \<open>RangeError\<close> when the source does not fit
  at the offset, otherwise the target with the source written over it.
\<close>

definition ta_set :: "real list \<Rightarrow> real list \<Rightarrow> int \<Rightarrow> error + real list" where
  "ta_set target source offset =
     (if offset < 0 \<or> int (length source) + offset > int (length target)
      then Inl RangeError
      else Inr (take (nat offset) target @ source @
                drop (nat offset + length source) target))"

text \<open>
  \<open>audioContext.createBuffer(numberOfChannels, length, sampleRate)\<close>: a zero-filled buffer;
  a \<open>NotSupportedError\<close> when a value is zero or negative.
\<close>

definition createBuffer :: "nat \<Rightarrow> int \<Rightarrow> nat \<Rightarrow> error + AudioBuffer" where
  "createBuffer nch len rate =
     (if nch = 0 \<or> len \<le> 0 \<or> rate = 0 then Inl NotSupportedError
      else Inr \<lparr>sampleRate = rate, buf_length = nat len,
                channels = replicate nch (replicate (nat len) 0)\<rparr>)"

text \<open>A template literal's \<open>${n}\<close> for a non-negative integer \<open>n\<close>: its decimal digits.\<close>

function string_of_nat :: "nat \<Rightarrow> string" where
  "string_of_nat n =
     (if n < 10 then [''0123456789'' ! n]
      else string_of_nat (n div 10) @ [''0123456789'' ! (n mod 10)])"
  by pat_completeness auto
termination
  by (relation "measure id") auto

declare string_of_nat.simps [simp del]

section \<open>Pause resynthesis: \<open>createPaddedAudio\<close>\<close>

text \<open>
  Lines 56-61: the accumulation of \<open>totalLength\<close>, with every difference, product and
  partial sum rounded as the source computes it.
\<close>

definition accumulateLength :: "SpeechChunk list \<Rightarrow> real \<Rightarrow> real" where
  "accumulateLength chunks pm =
     foldl (\<lambda>acc chunk. fl64 (acc + fl64 (fl64 (end' chunk - start chunk) * fl64 (1 + pm))))
       0 chunks"

text \<open>
  Lines 75-86: the chunks of one channel, each written at \<open>Math.round\<close> of the cursor; the
  cursor then advances by two additions, each rounded to double precision.
\<close>

fun copyChunks :: "real list \<Rightarrow> real \<Rightarrow> SpeechChunk list \<Rightarrow> real \<Rightarrow> real list \<Rightarrow> error + real list" where
  "copyChunks originalData pm [] currentPosition newData = Inr newData"
| "copyChunks originalData pm (chunk # rest) currentPosition newData =
     (let chunkDuration = fl64 (end' chunk - start chunk);
          chunkData = subarray originalData (start chunk) (end' chunk)
      in case ta_set newData chunkData (js_round currentPosition) of
           Inl e \<Rightarrow> Inl e
         | Inr newData' \<Rightarrow>
             copyChunks originalData pm rest
               (fl64 (fl64 (currentPosition + chunkDuration) + fl64 (chunkDuration * pm)))
               newData')"

text \<open>Lines 71-87: the loop over the channels; \<open>newData\<close> is a view of \<open>newBuffer\<close>.\<close>

fun padChannels :: "AudioBuffer \<Rightarrow> SpeechChunk list \<Rightarrow> real \<Rightarrow> nat list \<Rightarrow> AudioBuffer \<Rightarrow> error + AudioBuffer" where
  "padChannels originalBuffer chunks pm [] newBuffer = Inr newBuffer"
| "padChannels originalBuffer chunks pm (channel # rest) newBuffer =
     (case getChannelData originalBuffer channel of
        Inl e \<Rightarrow> Inl e
      | Inr originalData \<Rightarrow>
          (case getChannelData newBuffer channel of
             Inl e \<Rightarrow> Inl e
           | Inr newData \<Rightarrow>
               (case copyChunks originalData pm chunks 0 newData of
                  Inl e \<Rightarrow> Inl e
                | Inr newData' \<Rightarrow>
                    padChannels originalBuffer chunks pm rest
                      (newBuffer\<lparr>channels := (channels newBuffer)[channel := newData']\<rparr>))))"

definition createPaddedAudio :: "AudioBuffer \<Rightarrow> SpeechChunk list \<Rightarrow> Settings \<Rightarrow> error + AudioBuffer" where
  "createPaddedAudio originalBuffer chunks settings =
     (let pm = pauseMultiplier settings;
          totalLength = accumulateLength chunks pm
      in if totalLength = 0
         then Inl (Error ''No speech detected in the audio file. Try adjusting the silence threshold.'')
         else (case createBuffer (numberOfChannels originalBuffer) \<lceil>totalLength\<rceil>
                      (sampleRate originalBuffer) of
                 Inl e \<Rightarrow> Inl e
               | Inr newBuffer \<Rightarrow>
                   padChannels originalBuffer chunks pm
                     [0..<numberOfChannels originalBuffer] newBuffer))"

section \<open>Encoding: \<open>encodeMp3\<close>\<close>

text \<open>
  Storing a number into an \<open>Int16Array\<close>: truncation toward zero, then reduction modulo
  \<open>2^16\<close> into the signed range.
\<close>

definition toInt16 :: "real \<Rightarrow> int" where
  "toInt16 v =
     (let r = js_trunc v mod 65536 in if r \<ge> 32768 then r - 65536 else r)"

text \<open>
  Lines 102-108. A sample is a float32 value, and the product of a float32 value in
  \<open>[-1, 1]\<close> and 32767 has at most 39 significant bits: it is exact in binary64.
\<close>

definition convertBuffer :: "real list \<Rightarrow> int list" where
  "convertBuffer buffer = map (\<lambda>x. toInt16 (max (- 1) (min 1 x) * 32767)) buffer"

text \<open>
  The \<open>lamejs\<close> library is not part of the repository: its encoder is a parameter, with
  the encoder object's state threaded through the calls.
\<close>

record 'e lamejs =
  Mp3Encoder :: "nat \<Rightarrow> nat \<Rightarrow> nat \<Rightarrow> 'e"
  encodeBuffer :: "'e \<Rightarrow> int list \<Rightarrow> int list option \<Rightarrow> 'e \<times> nat list"
  flush :: "'e \<Rightarrow> nat list"

record Blob =
  blob_parts :: "nat list list"
  blob_type :: string

text \<open>Lines 113-125: the loop over blocks of 1152 samples.\<close>

function encodeBlocks :: "'e lamejs \<Rightarrow> int list \<Rightarrow> int list option \<Rightarrow> nat \<Rightarrow> 'e \<Rightarrow> nat list list \<Rightarrow> 'e \<times> nat list list" where
  "encodeBlocks lame left right i mp3encoder mp3Data =
     (if i < length left
      then (let leftChunk = subarray left (real i) (real (i + 1152));
                rightChunk = map_option (\<lambda>r. subarray r (real i) (real (i + 1152))) right;
                res = encodeBuffer lame mp3encoder leftChunk rightChunk
            in encodeBlocks lame left right (i + 1152) (fst res)
                 (if length (snd res) > 0 then mp3Data @ [snd res] else mp3Data))
      else (mp3encoder, mp3Data))"
  by pat_completeness auto
termination
  by (relation "measure (\<lambda>(lame, left, right, i, mp3encoder, mp3Data). length left - i)") auto

declare encodeBlocks.simps [simp del]

definition encodeMp3 :: "'e lamejs option \<Rightarrow> AudioBuffer \<Rightarrow> error + Blob" where
  "encodeMp3 lamejs_global audioBuffer =
     (case lamejs_global of
        None \<Rightarrow> Inl (Error ''lamejs library is not loaded. Please include it in your HTML.'')
      | Some lame \<Rightarrow>
          (let mp3encoder = Mp3Encoder lame (numberOfChannels audioBuffer)
                              (sampleRate audioBuffer) 128
           in case getChannelData audioBuffer 0 of
                Inl e \<Rightarrow> Inl e
              | Inr data0 \<Rightarrow>
                  (let left = convertBuffer data0;
                       right = (if numberOfChannels audioBuffer > 1
                                then Some (convertBuffer (channels audioBuffer ! 1)) else None);
                       res = encodeBlocks lame left right 0 mp3encoder [];
                       mp3buf = flush lame (fst res);
                       mp3Data = (if length mp3buf > 0 then snd res @ [mp3buf] else snd res)
                   in Inr \<lparr>blob_parts = mp3Data, blob_type = ''audio/mpeg''\<rparr>)))"

section \<open>The orchestrators\<close>

text \<open>
  A \<open>File\<close> is its name and its bytes. \<open>decodeAudioData\<close> belongs to the platform and is
  a parameter. \<open>setProgress\<close> is modelled by the list of the messages it was called with,
  in order, returned next to the outcome.
\<close>

record File =
  file_name :: string
  file_bytes :: "nat list"

definition decodeAudio :: "(nat list \<Rightarrow> error + AudioBuffer) \<Rightarrow> File \<Rightarrow> error + AudioBuffer" where
  "decodeAudio decodeAudioData file = decodeAudioData (file_bytes file)"

definition processAudioFile ::
  "(nat list \<Rightarrow> error + AudioBuffer) \<Rightarrow> 'e lamejs option \<Rightarrow> File \<Rightarrow> Settings
     \<Rightarrow> (string list \<times> (error + Blob)) option" where
  "processAudioFile decodeAudioData lamejs_global file settings =
     (let msgs1 = [''Step 1/4: Decoding audio...''] in
      case decodeAudio decodeAudioData file of
        Inl e \<Rightarrow> Some (msgs1, Inl e)
      | Inr originalBuffer \<Rightarrow>
          (let msgs2 = msgs1 @ [''Step 2/4: Analyzing for speech...''] in
           case detectSpeechChunks originalBuffer settings of
             None \<Rightarrow> None
           | Some (Inl e) \<Rightarrow> Some (msgs2, Inl e)
           | Some (Inr speechChunks) \<Rightarrow>
               if length speechChunks = 0
               then Some (msgs2, Inl (Error ''Could not detect any speech. Please try adjusting the 'Silence Threshold' slider to be lower.''))
               else (let msgs3 = msgs2 @
                           [''Step 3/4: Reconstructing audio with pauses... (found '' @
                            string_of_nat (length speechChunks) @ '' phrases)'']
                     in case createPaddedAudio originalBuffer speechChunks settings of
                          Inl e \<Rightarrow> Some (msgs3, Inl e)
                        | Inr newBuffer \<Rightarrow>
                            (let msgs4 = msgs3 @ [''Step 4/4: Encoding final MP3 file...'']
                             in Some (msgs4, encodeMp3 lamejs_global newBuffer)))))"

text \<open>Lines 172-176: decoding the files in order, one message per file.\<close>

fun decodeLoop ::
  "(nat list \<Rightarrow> error + AudioBuffer) \<Rightarrow> nat \<Rightarrow> nat \<Rightarrow> File list \<Rightarrow> string list
     \<Rightarrow> AudioBuffer list \<Rightarrow> string list \<times> (error + AudioBuffer list)" where
  "decodeLoop decodeAudioData n i [] msgs decodedBuffers = (msgs, Inr decodedBuffers)"
| "decodeLoop decodeAudioData n i (file # rest) msgs decodedBuffers =
     (let msgs' = msgs @ [''Decoding '' @ string_of_nat (i + 1) @ ''/'' @ string_of_nat n @
                         '': '' @ file_name file @ ''...'']
      in case decodeAudio decodeAudioData file of
           Inl e \<Rightarrow> (msgs', Inl e)
         | Inr buffer \<Rightarrow>
             decodeLoop decodeAudioData n (i + 1) rest msgs' (decodedBuffers @ [buffer]))"

text \<open>
  Lines 184-193: validation against the first buffer's \<open>sampleRate\<close> and
  \<open>numberOfChannels\<close>, accumulating \<open>totalLength\<close>.
\<close>

fun validateLoop :: "nat \<Rightarrow> nat \<Rightarrow> AudioBuffer list \<Rightarrow> nat \<Rightarrow> error + nat" where
  "validateLoop rate nch [] totalLength = Inr totalLength"
| "validateLoop rate nch (buffer # rest) totalLength =
     (if sampleRate buffer \<noteq> rate
      then Inl (Error (''Mismatched sample rates. All files must have a sample rate of '' @
                       string_of_nat rate @ '' Hz.''))
      else if numberOfChannels buffer \<noteq> nch
      then Inl (Error (''Mismatched channel counts. All files must have '' @
                       string_of_nat nch @ '' channel(s).''))
      else validateLoop rate nch rest (totalLength + buf_length buffer))"

text \<open>Lines 202-204: one input buffer's channels, written at \<open>offset\<close>.\<close>

fun copyChannels :: "AudioBuffer \<Rightarrow> nat \<Rightarrow> nat list \<Rightarrow> AudioBuffer \<Rightarrow> error + AudioBuffer" where
  "copyChannels buffer offset [] mergedBuffer = Inr mergedBuffer"
| "copyChannels buffer offset (channel # rest) mergedBuffer =
     (case getChannelData mergedBuffer channel of
        Inl e \<Rightarrow> Inl e
      | Inr target \<Rightarrow>
          (case getChannelData buffer channel of
             Inl e \<Rightarrow> Inl e
           | Inr source \<Rightarrow>
               (case ta_set target source (int offset) of
                  Inl e \<Rightarrow> Inl e
                | Inr target' \<Rightarrow>
                    copyChannels buffer offset rest
                      (mergedBuffer\<lparr>channels := (channels mergedBuffer)[channel := target']\<rparr>))))"

text \<open>Lines 201-206: the loop over the input buffers.\<close>

fun concatLoop :: "nat \<Rightarrow> AudioBuffer list \<Rightarrow> nat \<Rightarrow> AudioBuffer \<Rightarrow> error + AudioBuffer" where
  "concatLoop nch [] offset mergedBuffer = Inr mergedBuffer"
| "concatLoop nch (buffer # rest) offset mergedBuffer =
     (case copyChannels buffer offset [0..<nch] mergedBuffer of
        Inl e \<Rightarrow> Inl e
      | Inr mergedBuffer' \<Rightarrow> concatLoop nch rest (offset + buf_length buffer) mergedBuffer')"

text \<open>Lines 198-206.\<close>

definition concatBuffers :: "nat \<Rightarrow> nat \<Rightarrow> nat \<Rightarrow> AudioBuffer list \<Rightarrow> error + AudioBuffer" where
  "concatBuffers nch totalLength rate decodedBuffers =
     (case createBuffer nch (int totalLength) rate of
        Inl e \<Rightarrow> Inl e
      | Inr mergedBuffer \<Rightarrow> concatLoop nch decodedBuffers 0 mergedBuffer)"

definition mergeAudioFiles ::
  "(nat list \<Rightarrow> error + AudioBuffer) \<Rightarrow> 'e lamejs option \<Rightarrow> File list
     \<Rightarrow> string list \<times> (error + Blob)" where
  "mergeAudioFiles decodeAudioData lamejs_global files =
     (if length files < 2
      then ([], Inl (Error ''At least two files are required to merge.''))
      else
        (let totalSteps = length files + 2;
             msgs1 = [''Step 1/'' @ string_of_nat totalSteps @ '': Decoding audio files...'']
         in case decodeLoop decodeAudioData (length files) 0 files msgs1 [] of
              (msgs2, Inl e) \<Rightarrow> (msgs2, Inl e)
            | (msgs2, Inr decodedBuffers) \<Rightarrow>
                (let msgs3 = msgs2 @
                       [''Step '' @ string_of_nat (length files + 1) @ ''/'' @
                        string_of_nat totalSteps @ '': Validating audio properties...'']
                 in case decodedBuffers of
                      [] \<Rightarrow> (msgs3, Inl TypeError)
                    | firstBuffer # _ \<Rightarrow>
                        (case validateLoop (sampleRate firstBuffer)
                                (numberOfChannels firstBuffer) decodedBuffers 0 of
                           Inl e \<Rightarrow> (msgs3, Inl e)
                         | Inr totalLength \<Rightarrow>
                             (let msgs4 = msgs3 @
                                    [''Step '' @ string_of_nat (length files + 2) @ ''/'' @
                                     string_of_nat totalSteps @ '': Merging audio...'']
                              in case concatBuffers (numberOfChannels firstBuffer) totalLength
                                        (sampleRate firstBuffer) decodedBuffers of
                                   Inl e \<Rightarrow> (msgs4, Inl e)
                                 | Inr mergedBuffer \<Rightarrow>
                                     (msgs4, encodeMp3 lamejs_global mergedBuffer))))))"

section \<open>Predicates used in the properties\<close>

text \<open>
  A chunk list is well-formed for a buffer of \<open>n\<close> samples when every chunk lies inside
  the buffer with \<open>start < end\<close>, and every chunk ends before any later one starts. The
  invariant of the scan: the chunks are well-formed and end at or before the integer part
  of \<open>i\<close>, and an open speech region starts after them and before that integer part.
\<close>

definition chunks_ok :: "nat \<Rightarrow> SpeechChunk list \<Rightarrow> bool" where
  "chunks_ok n cs \<longleftrightarrow>
     (\<forall>c\<in>set cs. 0 \<le> start c \<and> start c < end' c \<and> end' c \<le> real n) \<and>
     sorted_wrt (\<lambda>a b. end' a \<le> start b) cs"

definition scan_inv :: "nat \<Rightarrow> scan_state \<Rightarrow> bool" where
  "scan_inv n t \<longleftrightarrow>
     chunks_ok n (st_chunks t) \<and>
     (\<forall>c\<in>set (st_chunks t). end' c \<le> of_int \<lfloor>st_i t\<rfloor>) \<and>
     (0 \<le> st_speechStart t \<longrightarrow>
        st_speechStart t + 1 \<le> of_int \<lfloor>st_i t\<rfloor> \<and> st_speechStart t < real n \<and>
        (\<forall>c\<in>set (st_chunks t). end' c \<le> st_speechStart t))"

text \<open>The index of the first sample whose magnitude exceeds the threshold (the length of the
  buffer when there is none).\<close>

definition firstOnset :: "real list \<Rightarrow> real \<Rightarrow> nat" where
  "firstOnset xs thr = length (takeWhile (\<lambda>v. \<not> \<bar>v\<bar> > thr) xs)"

text \<open>The length of the longest run of consecutive samples whose magnitude is below the
  threshold; \<open>cur\<close> is the run in progress, \<open>best\<close> the longest one seen.\<close>

fun silentRuns :: "real list \<Rightarrow> real \<Rightarrow> nat \<Rightarrow> nat \<Rightarrow> nat" where
  "silentRuns [] thr cur best = max cur best"
| "silentRuns (v # vs) thr cur best =
     (if \<bar>v\<bar> < thr then silentRuns vs thr (cur + 1) best
      else silentRuns vs thr 0 (max cur best))"

definition longestSilentRun :: "real list \<Rightarrow> real \<Rightarrow> nat" where
  "longestSilentRun xs thr = silentRuns xs thr 0 0"

text \<open>
  Collaborators for the concrete runs: a decoder that yields the same buffer for every
  file, and an encoder that emits no bytes.
\<close>

definition decodeTo :: "AudioBuffer \<Rightarrow> nat list \<Rightarrow> error + AudioBuffer" where
  "decodeTo b bytes = Inr b"

definition silentEncoder :: "nat lamejs" where
  "silentEncoder =
     \<lparr>Mp3Encoder = (\<lambda>nch rate kbps. 0), encodeBuffer = (\<lambda>enc left right. (enc, [])),
      flush = (\<lambda>enc. [])\<rparr>"

text \<open>
  A decoder for the validation runs: the first two bytes of a file give the sample rate
  and the channel count of the one-frame buffer it decodes to.
\<close>

definition decodeHeader :: "nat list \<Rightarrow> error + AudioBuffer" where
  "decodeHeader bytes =
     (case bytes of
        rate # nch # _ \<Rightarrow>
          Inr \<lparr>sampleRate = rate, buf_length = 1, channels = replicate nch [0]\<rparr>
      | _ \<Rightarrow> Inl EncodingError)"

section \<open>Properties of the number format\<close>

lemma roundTiesToEven_of_int [simp]: "roundTiesToEven (of_int k) = k"
  by (simp add: roundTiesToEven_def)

lemma roundTiesToEven_mono:
  assumes "x \<le> y"
  shows "roundTiesToEven x \<le> roundTiesToEven y"
proof (cases "\<lfloor>x\<rfloor> = \<lfloor>y\<rfloor>")
  case True
  with assms show ?thesis
    by (auto simp: roundTiesToEven_def Let_def)
next
  case False
  with assms have "\<lfloor>x\<rfloor> + 1 \<le> \<lfloor>y\<rfloor>"
    using floor_mono[OF assms] by linarith
  moreover have "roundTiesToEven x \<le> \<lfloor>x\<rfloor> + 1"
    by (simp add: roundTiesToEven_def Let_def)
  moreover have "\<lfloor>y\<rfloor> \<le> roundTiesToEven y"
    by (simp add: roundTiesToEven_def Let_def)
  ultimately show ?thesis by linarith
qed

lemma fl64_pos_scale: "0 < x \<Longrightarrow> x < 2 ^ 52 \<Longrightarrow> fl64_pos x = fl64_pos (2 * x) / 2"
  by (subst fl64_pos.simps) simp

lemma fl64_pos_large: "2 ^ 52 \<le> x \<Longrightarrow> fl64_pos x = of_int (roundTiesToEven x)"
  by (subst fl64_pos.simps) simp

lemma fl64_pos_nonpos: "x \<le> 0 \<Longrightarrow> fl64_pos x = of_int (roundTiesToEven x)"
  by (subst fl64_pos.simps) simp

lemma fl64_pos_of_int: "fl64_pos (of_int k) = of_int k"
proof -
  have "x \<in> \<int> \<longrightarrow> fl64_pos x = x" for x
  proof (induction x rule: fl64_pos.induct)
    case (1 x)
    show ?case
    proof (cases "0 < x \<and> x < 2 ^ 52")
      case True
      show ?thesis
      proof
        assume "x \<in> \<int>"
        then have "2 * x \<in> \<int>" by simp
        with "1.IH"[OF True] have "fl64_pos (2 * x) = 2 * x" by simp
        with True show "fl64_pos x = x" by (simp add: fl64_pos_scale)
      qed
    next
      case False
      then have "fl64_pos x = of_int (roundTiesToEven x)"
        by (subst fl64_pos.simps) auto
      then show ?thesis by (auto elim!: Ints_cases)
    qed
  qed
  then show ?thesis by simp
qed

lemma fl64_pos_dyadic:
  assumes "0 < x" and "x * 2 ^ n = of_int m" and "m < 2 ^ 53"
  shows "fl64_pos x = x"
  using assms
proof (induction n arbitrary: x)
  case 0
  then have "x = of_int m" by simp
  then show ?case by (simp add: fl64_pos_of_int)
next
  case (Suc n)
  have "x < 2 ^ 52"
  proof (rule ccontr)
    assume "\<not> x < 2 ^ 52"
    then have "2 ^ 52 * 2 ^ Suc n \<le> x * 2 ^ Suc n" by simp
    moreover have "(2::real) ^ 53 \<le> 2 ^ 52 * 2 ^ Suc n"
    proof -
      have "(1::real) \<le> 2 ^ n" by simp
      then show ?thesis by simp
    qed
    moreover have "real_of_int m < 2 ^ 53" using Suc.prems(3) by (metis of_int_less_numeral_power_cancel_iff)
    ultimately show False using Suc.prems(2) by linarith
  qed
  moreover have "fl64_pos (2 * x) = 2 * x"
  proof (rule Suc.IH)
    show "0 < 2 * x" using Suc.prems(1) by simp
    show "2 * x * 2 ^ n = of_int m" using Suc.prems(2) by (simp add: mult_ac)
    show "m < 2 ^ 53" by fact
  qed
  ultimately show ?case using Suc.prems(1) by (simp add: fl64_pos_scale)
qed

lemma fl64_pos_eval:
  assumes "2 ^ 52 \<le> x * 2 ^ n" and "x * 2 ^ n < 2 ^ 53"
  shows "fl64_pos x = of_int (roundTiesToEven (x * 2 ^ n)) / 2 ^ n"
  using assms
proof (induction n arbitrary: x)
  case 0
  then show ?case by (simp add: fl64_pos_large)
next
  case (Suc n)
  have pos: "0 < x"
  proof (rule ccontr)
    assume "\<not> 0 < x"
    then have "x * 2 ^ Suc n \<le> 0" by (simp add: mult_le_0_iff)
    with Suc.prems(1) show False by (smt (verit) zero_less_power)
  qed
  have "x < 2 ^ 52"
  proof (rule ccontr)
    assume "\<not> x < 2 ^ 52"
    then have "2 ^ 52 * 2 ^ Suc n \<le> x * 2 ^ Suc n" by simp
    moreover have "(2::real) ^ 53 \<le> 2 ^ 52 * 2 ^ Suc n"
    proof -
      have "(1::real) \<le> 2 ^ n" by simp
      then show ?thesis by simp
    qed
    ultimately show False using Suc.prems(2) by linarith
  qed
  moreover have "fl64_pos (2 * x) = of_int (roundTiesToEven (2 * x * 2 ^ n)) / 2 ^ n"
    using Suc.prems by (intro Suc.IH) (simp_all add: mult_ac)
  ultimately show ?case using pos by (simp add: fl64_pos_scale mult_ac)
qed

lemma fl64_pos_nonneg: "0 \<le> x \<Longrightarrow> 0 \<le> fl64_pos x"
proof (induction x rule: fl64_pos.induct)
  case (1 x)
  show ?case
  proof (cases "0 < x \<and> x < 2 ^ 52")
    case True
    with "1.IH" have "0 \<le> fl64_pos (2 * x)" by simp
    with True show ?thesis by (simp add: fl64_pos_scale)
  next
    case False
    then have "fl64_pos x = of_int (roundTiesToEven x)"
      by (subst fl64_pos.simps) auto
    moreover have "roundTiesToEven 0 \<le> roundTiesToEven x"
      using "1.prems" by (rule roundTiesToEven_mono)
    ultimately show ?thesis
      using roundTiesToEven_of_int[of 0] by simp
  qed
qed

lemma fl64_pos_below: "0 < x \<Longrightarrow> x < 2 ^ 52 \<Longrightarrow> fl64_pos x \<le> 2 ^ 52"
proof (induction x rule: fl64_pos.induct)
  case (1 x)
  show ?case
  proof (cases "2 * x < 2 ^ 52")
    case True
    with "1.IH" "1.prems" have "fl64_pos (2 * x) \<le> 2 ^ 52" by simp
    with "1.prems" show ?thesis by (simp add: fl64_pos_scale)
  next
    case False
    then have "fl64_pos (2 * x) = of_int (roundTiesToEven (2 * x))"
      by (intro fl64_pos_large) simp
    moreover have "roundTiesToEven (2 * x) \<le> roundTiesToEven (of_int (2 ^ 53))"
      using "1.prems" by (intro roundTiesToEven_mono) simp
    then have "real_of_int (roundTiesToEven (2 * x)) \<le> 2 ^ 53"
      unfolding roundTiesToEven_of_int by (metis of_int_le_numeral_power_cancel_iff)
    ultimately show ?thesis
      using "1.prems" by (simp add: fl64_pos_scale)
  qed
qed

lemma fl64_pos_above: "2 ^ 52 \<le> x \<Longrightarrow> 2 ^ 52 \<le> fl64_pos x"
proof -
  assume a: "2 ^ 52 \<le> x"
  then have "roundTiesToEven (of_int (2 ^ 52)) \<le> roundTiesToEven x"
    by (intro roundTiesToEven_mono) simp
  then have "2 ^ 52 \<le> real_of_int (roundTiesToEven x)"
    unfolding roundTiesToEven_of_int by (metis numeral_power_le_of_int_cancel_iff)
  with a show ?thesis by (simp add: fl64_pos_large)
qed

lemma fl64_pos_mono: "0 \<le> x \<Longrightarrow> x \<le> y \<Longrightarrow> fl64_pos x \<le> fl64_pos y"
proof (induction x arbitrary: y rule: fl64_pos.induct)
  case (1 x)
  show ?case
  proof (cases "0 < x \<and> x < 2 ^ 52")
    case True
    show ?thesis
    proof (cases "y < 2 ^ 52")
      case y: True
      have "fl64_pos (2 * x) \<le> fl64_pos (2 * y)"
        using "1.IH"[OF True, of "2 * y"] "1.prems" by simp
      with True y "1.prems" show ?thesis by (simp add: fl64_pos_scale)
    next
      case False
      with fl64_pos_above[of y] fl64_pos_below[of x] True show ?thesis by simp
    qed
  next
    case False
    show ?thesis
    proof (cases "x = 0")
      case True
      have "fl64_pos 0 = 0"
        using fl64_pos_of_int[of 0] by simp
      with True fl64_pos_nonneg[of y] "1.prems" show ?thesis by simp
    next
      case nz: False
      with False "1.prems" have "2 ^ 52 \<le> x" "2 ^ 52 \<le> y" by auto
      with roundTiesToEven_mono[OF "1.prems"(2)] show ?thesis
        by (simp add: fl64_pos_large)
    qed
  qed
qed

lemma fl64_mono: "x \<le> y \<Longrightarrow> fl64 x \<le> fl64 y"
proof -
  assume le: "x \<le> y"
  consider "x < 0" "y < 0" | "x < 0" "0 \<le> y" | "0 \<le> x"
    by linarith
  then show ?thesis
  proof cases
    case 1
    with le fl64_pos_mono[of "- y" "- x"] show ?thesis by (simp add: fl64_def)
  next
    case 2
    with fl64_pos_nonneg[of "- x"] fl64_pos_nonneg[of y] show ?thesis by (simp add: fl64_def)
  next
    case 3
    with le fl64_pos_mono[of x y] show ?thesis by (simp add: fl64_def)
  qed
qed

lemma fl64_of_int [simp]: "fl64 (of_int k) = of_int k"
proof (cases "k < 0")
  case True
  with fl64_pos_of_int[of "- k"] show ?thesis by (simp add: fl64_def)
next
  case False
  with fl64_pos_of_int[of k] show ?thesis by (simp add: fl64_def)
qed

lemma fl64_of_nat [simp]: "fl64 (of_nat n) = of_nat n"
  using fl64_of_int[of "int n"] by simp

lemma fl64_numeral [simp]: "fl64 (numeral n) = numeral n"
  using fl64_of_int[of "numeral n"] by simp

lemma fl64_neg_numeral [simp]: "fl64 (- numeral n) = - numeral n"
  using fl64_of_int[of "- numeral n"] by simp

lemma fl64_zero [simp]: "fl64 0 = 0"
  using fl64_of_int[of 0] by simp

lemma fl64_one [simp]: "fl64 1 = 1"
  using fl64_of_int[of 1] by simp

lemma fl64_neg_one [simp]: "fl64 (- 1) = - 1"
  using fl64_of_int[of "- 1"] by simp

lemma fl64_ge_int: "of_int k \<le> x \<Longrightarrow> of_int k \<le> fl64 x"
  using fl64_mono[of "of_int k" x] by simp

lemma fl64_le_int: "x \<le> of_int k \<Longrightarrow> fl64 x \<le> of_int k"
  using fl64_mono[of x "of_int k"] by simp

lemma fl64_dyadic:
  assumes "0 \<le> x" and "x * 2 ^ n = of_int m" and "m < 2 ^ 53"
  shows "fl64 x = x"
proof (cases "x = 0")
  case True
  then show ?thesis by simp
next
  case False
  with assms(1) have "0 < x" by simp
  from fl64_pos_dyadic[OF this assms(2,3)] assms(1) show ?thesis
    by (simp add: fl64_def)
qed

lemma fl64_half: "k < 2 ^ 52 \<Longrightarrow> fl64 (real k + 1 / 2) = real k + 1 / 2"
proof (rule fl64_dyadic[where n = 1 and m = "2 * int k + 1"])
  assume "k < 2 ^ 52"
  then have "int k < 2 ^ 52"
    by (metis of_nat_less_numeral_power_cancel_iff)
  then show "2 * int k + 1 < 2 ^ 53" by simp
qed simp_all

lemma fl64_eval:
  assumes "2 ^ 52 \<le> x * 2 ^ n" and "x * 2 ^ n < 2 ^ 53"
  shows "fl64 x = of_int (roundTiesToEven (x * 2 ^ n)) / 2 ^ n"
proof -
  have "0 < x * 2 ^ n" using assms(1) by (smt (verit) zero_less_power)
  then have "0 < x" by (simp add: zero_less_mult_iff)
  with fl64_pos_eval[OF assms] show ?thesis by (simp add: fl64_def)
qed

section \<open>Properties of the segmenter\<close>

lemma getSample_nat: "getSample xs (real n) = (if n < length xs then Some (xs ! n) else None)"
  by (simp add: getSample_def)

lemma exceedsThreshold_nat:
  "exceedsThreshold xs thr (real n) \<longleftrightarrow> n < length xs \<and> \<bar>xs ! n\<bar> > thr"
  by (simp add: exceedsThreshold_def getSample_nat)

lemma belowThreshold_nat:
  "belowThreshold xs thr (real n) \<longleftrightarrow> n < length xs \<and> \<bar>xs ! n\<bar> < thr"
  by (simp add: belowThreshold_def getSample_nat)

lemma getSample_SomeD:
  assumes "getSample xs i = Some v"
  shows "\<exists>n. i = real n \<and> n < length xs \<and> v = xs ! n"
proof -
  from assms have a: "0 \<le> i" "i < real (length xs)" "of_int \<lfloor>i\<rfloor> = i" "v = xs ! nat \<lfloor>i\<rfloor>"
    by (auto simp: getSample_def split: if_splits)
  have "i = real (nat \<lfloor>i\<rfloor>)" using a(1,3) by (metis of_nat_nat zero_le_floor)
  moreover have "nat \<lfloor>i\<rfloor> < length xs" using a(1,2) by linarith
  ultimately show ?thesis using a(4) by blast
qed

lemma exceedsThresholdD:
  "exceedsThreshold xs thr i \<Longrightarrow> \<exists>n. i = real n \<and> n < length xs \<and> \<bar>xs ! n\<bar> > thr"
  by (auto simp: exceedsThreshold_def split: option.splits dest: getSample_SomeD)

lemma belowThresholdD:
  "belowThreshold xs thr i \<Longrightarrow> \<exists>n. i = real n \<and> n < length xs \<and> \<bar>xs ! n\<bar> < thr"
  by (auto simp: belowThreshold_def split: option.splits dest: getSample_SomeD)

lemma lookahead_SomeD:
  "lookahead xs thr stop j = Some k \<Longrightarrow>
     j \<le> k \<and> k < stop \<and> k < real (length xs) \<and> exceedsThreshold xs thr k"
proof (induction xs thr stop j rule: lookahead.induct)
  case (1 xs thr stop j)
  show ?case
  proof (cases "j < stop \<and> j < real (length xs)")
    case False
    with "1.prems" show ?thesis by (simp add: lookahead.simps)
  next
    case True
    show ?thesis
    proof (cases "exceedsThreshold xs thr j")
      case True
      with \<open>j < stop \<and> j < real (length xs)\<close> "1.prems" show ?thesis
        by (simp add: lookahead.simps)
    next
      case False
      with True "1.prems" have "lookahead xs thr stop (j + 1) = Some k"
        by (simp add: lookahead.simps)
      with "1.IH" True False show ?thesis by fastforce
    qed
  qed
qed

lemma lookahead_NoneD:
  "lookahead xs thr stop j = None \<Longrightarrow> j + real n < stop \<Longrightarrow> j + real n < real (length xs)
     \<Longrightarrow> \<not> exceedsThreshold xs thr (j + real n)"
proof (induction xs thr stop j arbitrary: n rule: lookahead.induct)
  case (1 xs thr stop j)
  have inr: "j < stop \<and> j < real (length xs)"
    using "1.prems"(2,3) by (smt (verit) of_nat_0_le_iff)
  show ?case
  proof (cases n)
    case 0
    have "lookahead xs thr stop j =
        (if exceedsThreshold xs thr j then Some j else lookahead xs thr stop (j + 1))"
      using inr by (subst lookahead.simps) simp
    with "1.prems"(1) 0 show ?thesis
      by (auto split: if_splits)
  next
    case (Suc n')
    have un: "lookahead xs thr stop j =
        (if exceedsThreshold xs thr j then Some j else lookahead xs thr stop (j + 1))"
      using inr by (subst lookahead.simps) simp
    from "1.prems"(1) un have ne: "\<not> exceedsThreshold xs thr j"
      by (auto split: if_splits)
    with "1.prems"(1) un have nx: "lookahead xs thr stop (j + 1) = None"
      by simp
    have eq: "j + 1 + real n' = j + real n"
      using Suc by simp
    have "\<not> exceedsThreshold xs thr (j + 1 + real n')"
    proof (rule "1.IH"[OF inr ne nx])
      show "j + 1 + real n' < stop" using "1.prems"(2) eq by simp
      show "j + 1 + real n' < real (length xs)" using "1.prems"(3) eq by simp
    qed
    then show ?thesis using eq by simp
  qed
qed

lemma fl64_advance:
  assumes "of_int k \<le> x"
  shows "k + 1 \<le> \<lfloor>fl64 (x + 1)\<rfloor>"
proof -
  have "of_int (k + 1) \<le> x + 1" using assms by simp
  then have "of_int (k + 1) \<le> fl64 (x + 1)" by (rule fl64_ge_int)
  then show ?thesis by (simp only: le_floor_iff)
qed

lemma fl64_index_succ [simp]: "fl64 (real n + 1) = real n + 1"
  using fl64_of_nat[of "Suc n"] by (simp add: add.commute)

lemma iteration_progress:
  assumes "0 \<le> m"
  shows "\<lfloor>st_i s\<rfloor> + 1 \<le> \<lfloor>st_i (iteration xs thr m s)\<rfloor>"
proof -
  let ?i = "st_i s"
  have base: "of_int \<lfloor>?i\<rfloor> \<le> ?i" by simp
  have 1: "\<lfloor>?i\<rfloor> + 1 \<le> \<lfloor>fl64 (?i + 1)\<rfloor>"
    by (rule fl64_advance[OF base])
  have 2: "\<lfloor>?i\<rfloor> + 1 \<le> \<lfloor>fl64 (fl64 (?i + m) + 1)\<rfloor>"
  proof (rule fl64_advance)
    have "of_int \<lfloor>?i\<rfloor> \<le> ?i + m" using assms base by linarith
    then show "of_int \<lfloor>?i\<rfloor> \<le> fl64 (?i + m)" by (rule fl64_ge_int)
  qed
  have 3: "\<lfloor>?i\<rfloor> + 1 \<le> \<lfloor>fl64 (j + 1)\<rfloor>"
    if "lookahead xs thr (fl64 (?i + m)) ?i = Some j" for j
  proof (rule fl64_advance)
    from lookahead_SomeD[OF that] have "?i \<le> j" by simp
    with base show "of_int \<lfloor>?i\<rfloor> \<le> j" by linarith
  qed
  show ?thesis
    using 1 2 3 by (auto simp: iteration_def Let_def split: option.splits)
qed

lemma scan_rule:
  assumes "P s"
    and step: "\<And>t. P t \<Longrightarrow> st_i t < real (length xs) \<Longrightarrow>
                 P (iteration xs thr m t) \<and> \<lfloor>st_i t\<rfloor> < \<lfloor>st_i (iteration xs thr m t)\<rfloor>"
  shows "\<exists>t. scan xs thr m s = Some t \<and> P t \<and> \<not> st_i t < real (length xs)"
  using assms(1)
proof (induction "nat (int (length xs) - \<lfloor>st_i s\<rfloor>)" arbitrary: s rule: less_induct)
  case less
  show ?case
  proof (cases "st_i s < real (length xs)")
    case False
    then have "scan xs thr m s = Some s" by (subst scan.simps) simp
    with False less.prems show ?thesis by blast
  next
    case True
    let ?s' = "iteration xs thr m s"
    from step[OF less.prems True] have P': "P ?s'" and adv: "\<lfloor>st_i s\<rfloor> < \<lfloor>st_i ?s'\<rfloor>"
      by simp_all
    from True have "\<lfloor>st_i s\<rfloor> < int (length xs)"
      by (simp add: floor_less_iff)
    with adv have "nat (int (length xs) - \<lfloor>st_i ?s'\<rfloor>) < nat (int (length xs) - \<lfloor>st_i s\<rfloor>)"
      by linarith
    from less.hyps[OF this P'] obtain t where
      "scan xs thr m ?s' = Some t" "P t" "\<not> st_i t < real (length xs)" by blast
    moreover have "scan xs thr m s = scan xs thr m ?s'"
      using True by (subst scan.simps) simp
    ultimately show ?thesis by auto
  qed
qed

lemma not_below_and_exceeds:
  "exceedsThreshold xs thr i \<Longrightarrow> \<not> belowThreshold xs thr i"
  by (auto simp: exceedsThreshold_def belowThreshold_def split: option.splits)

lemma exceedsThreshold_in_range:
  "exceedsThreshold xs thr i \<Longrightarrow> 0 \<le> i \<and> i < real (length xs)"
  by (auto dest: exceedsThresholdD)

lemma chunks_ok_snoc:
  assumes "chunks_ok n cs" "0 \<le> a" "a < b" "b \<le> real n" "\<forall>c\<in>set cs. end' c \<le> a"
  shows "chunks_ok n (cs @ [\<lparr>start = a, end' = b\<rparr>])"
  using assms by (auto simp: chunks_ok_def sorted_wrt_append)


lemma scan_inv_step:
  assumes m: "0 \<le> m" and inv: "scan_inv (length xs) t" and lt: "st_i t < real (length xs)"
  shows "scan_inv (length xs) (iteration xs thr m t)"
proof -
  let ?t' = "iteration xs thr m t"
  have adv: "\<lfloor>st_i t\<rfloor> + 1 \<le> \<lfloor>st_i ?t'\<rfloor>"
    by (rule iteration_progress[OF m])
  then have adv': "of_int \<lfloor>st_i t\<rfloor> + 1 \<le> (of_int \<lfloor>st_i ?t'\<rfloor> :: real)"
    by linarith
  have ends: "\<forall>c\<in>set (st_chunks t). end' c \<le> of_int \<lfloor>st_i ?t'\<rfloor>"
  proof
    fix c assume "c \<in> set (st_chunks t)"
    with inv have "end' c \<le> of_int \<lfloor>st_i t\<rfloor>" by (simp add: scan_inv_def)
    with adv' show "end' c \<le> of_int \<lfloor>st_i ?t'\<rfloor>" by linarith
  qed
  show ?thesis
  proof (cases "exceedsThreshold xs thr (st_i t) \<and> st_speechStart t < 0")
    case True
    then have nb: "\<not> belowThreshold xs thr (st_i t)"
      by (simp add: not_below_and_exceeds)
    from True obtain n where n: "st_i t = real n" "n < length xs"
      by (auto dest: exceedsThresholdD)
    have fl: "of_int \<lfloor>st_i t\<rfloor> = st_i t" by (simp add: n)
    have ss': "st_speechStart ?t' = st_i t" and cs': "st_chunks ?t' = st_chunks t"
      using True nb by (simp_all add: iteration_def Let_def)
    have "st_i t + 1 \<le> of_int \<lfloor>st_i ?t'\<rfloor>" using adv' fl by linarith
    moreover have "\<forall>c\<in>set (st_chunks t). end' c \<le> st_i t"
      using inv fl by (simp add: scan_inv_def)
    moreover have "chunks_ok (length xs) (st_chunks t)" using inv by (simp add: scan_inv_def)
    ultimately show ?thesis
      using ends lt unfolding scan_inv_def ss' cs' by blast
  next
    case False
    then have ss: "(if exceedsThreshold xs thr (st_i t) \<and> st_speechStart t < 0
                    then st_i t else st_speechStart t) = st_speechStart t"
      by (rule if_not_P)
    have keep: "scan_inv (length xs) ?t'"
      if ss': "st_speechStart ?t' = st_speechStart t" and cs': "st_chunks ?t' = st_chunks t"
    proof -
      have "0 \<le> st_speechStart t \<longrightarrow>
              st_speechStart t + 1 \<le> of_int \<lfloor>st_i ?t'\<rfloor> \<and> st_speechStart t < real (length xs) \<and>
              (\<forall>c\<in>set (st_chunks t). end' c \<le> st_speechStart t)"
      proof
        assume "0 \<le> st_speechStart t"
        with inv have a: "st_speechStart t + 1 \<le> of_int \<lfloor>st_i t\<rfloor>"
          "st_speechStart t < real (length xs)"
          "\<forall>c\<in>set (st_chunks t). end' c \<le> st_speechStart t"
          by (simp_all add: scan_inv_def)
        from a(1) adv' have "st_speechStart t + 1 \<le> of_int \<lfloor>st_i ?t'\<rfloor>" by linarith
        with a(2,3) show "st_speechStart t + 1 \<le> of_int \<lfloor>st_i ?t'\<rfloor> \<and>
              st_speechStart t < real (length xs) \<and>
              (\<forall>c\<in>set (st_chunks t). end' c \<le> st_speechStart t)" by blast
      qed
      moreover have "chunks_ok (length xs) (st_chunks t)" using inv by (simp add: scan_inv_def)
      ultimately show ?thesis
        using ends unfolding scan_inv_def ss' cs' by blast
    qed
    show ?thesis
    proof (cases "belowThreshold xs thr (st_i t) \<and> 0 \<le> st_speechStart t")
      case nb: False
      have "st_speechStart ?t' = st_speechStart t" "st_chunks ?t' = st_chunks t"
        using nb unfolding iteration_def Let_def ss by auto
      then show ?thesis by (rule keep)
    next
      case b: True
      then obtain n where n: "st_i t = real n" "n < length xs"
        by (auto dest: belowThresholdD)
      have fl: "of_int \<lfloor>st_i t\<rfloor> = st_i t" by (simp add: n)
      show ?thesis
      proof (cases "lookahead xs thr (fl64 (st_i t + m)) (st_i t)")
        case (Some j)
        have "st_speechStart ?t' = st_speechStart t" "st_chunks ?t' = st_chunks t"
          using Some b unfolding iteration_def Let_def ss by simp_all
        then show ?thesis by (rule keep)
      next
        case None
        have ss': "st_speechStart ?t' = - 1"
          and cs': "st_chunks ?t' = st_chunks t @ [\<lparr>start = st_speechStart t, end' = st_i t\<rparr>]"
          using None b unfolding iteration_def Let_def ss by simp_all
        from inv b have a: "st_speechStart t + 1 \<le> of_int \<lfloor>st_i t\<rfloor>"
          "\<forall>c\<in>set (st_chunks t). end' c \<le> st_speechStart t"
          "chunks_ok (length xs) (st_chunks t)"
          by (simp_all add: scan_inv_def)
        have ok: "chunks_ok (length xs)
            (st_chunks t @ [\<lparr>start = st_speechStart t, end' = st_i t\<rparr>])"
        proof (rule chunks_ok_snoc[OF a(3) _ _ _ a(2)])
          show "0 \<le> st_speechStart t" using b by simp
          show "st_speechStart t < st_i t" using a(1) fl by linarith
          show "st_i t \<le> real (length xs)" using lt by simp
        qed
        have "st_i t \<le> of_int \<lfloor>st_i ?t'\<rfloor>" using adv' fl by linarith
        with ends have "\<forall>c\<in>set (st_chunks t @ [\<lparr>start = st_speechStart t, end' = st_i t\<rparr>]).
                          end' c \<le> of_int \<lfloor>st_i ?t'\<rfloor>"
          by simp
        with ok show ?thesis
          unfolding scan_inv_def ss' cs' by simp
      qed
    qed
  qed
qed

lemma scan_inv_total:
  assumes "0 \<le> m"
  shows "\<exists>t. scan xs thr m \<lparr>st_i = 0, st_speechStart = - 1, st_chunks = []\<rparr> = Some t \<and>
             scan_inv (length xs) t"
proof -
  have init: "scan_inv (length xs) \<lparr>st_i = 0, st_speechStart = - 1, st_chunks = []\<rparr>"
    by (simp add: scan_inv_def chunks_ok_def)
  have step: "scan_inv (length xs) (iteration xs thr m t) \<and>
                \<lfloor>st_i t\<rfloor> < \<lfloor>st_i (iteration xs thr m t)\<rfloor>"
    if "scan_inv (length xs) t" "st_i t < real (length xs)" for t
    using scan_inv_step[OF assms that] iteration_progress[OF assms, of t xs thr] by simp
  from scan_rule[of "scan_inv (length xs)", OF init step]
  show ?thesis by blast
qed

lemma minSilenceSamples_nonneg:
  assumes "0 \<le> minSilenceDuration s"
  shows "0 \<le> minSilenceSamples b s"
proof -
  have "of_int 0 \<le> real (sampleRate b) * minSilenceDuration s"
    using assms by simp
  then have "of_int 0 \<le> fl64 (real (sampleRate b) * minSilenceDuration s)"
    by (rule fl64_ge_int)
  then show ?thesis by (simp add: minSilenceSamples_def)
qed
lemma chunks_ok_final:
  assumes "scan_inv n t"
  shows "chunks_ok n (if st_speechStart t \<ge> 0
                      then st_chunks t @ [\<lparr>start = st_speechStart t, end' = real n\<rparr>]
                      else st_chunks t)"
proof (cases "0 \<le> st_speechStart t")
  case True
  with assms have "chunks_ok n (st_chunks t @ [\<lparr>start = st_speechStart t, end' = real n\<rparr>])"
    by (intro chunks_ok_snoc) (auto simp: scan_inv_def)
  with True show ?thesis by simp
next
  case False
  with assms show ?thesis by (simp add: scan_inv_def)
qed

text \<open>
  C2. For a decoded buffer and a non-negative \<open>minSilenceDuration\<close> (the settings range
  is 0.2 to 2.0), segmentation returns, and every chunk it returns satisfies
  \<open>0 \<le> start < end \<le> length\<close>, each chunk starting no earlier than the previous one
  ends.
\<close>

theorem chunks_ordered:
  assumes "wf_buffer b" and "0 \<le> minSilenceDuration s"
  shows "\<exists>cs. detectSpeechChunks b s = Some (Inr cs) \<and>
           (\<forall>c\<in>set cs. 0 \<le> start c \<and> start c < end' c \<and> end' c \<le> real (buf_length b)) \<and>
           (\<forall>k. Suc k < length cs \<longrightarrow> end' (cs ! k) \<le> start (cs ! Suc k))"
proof -
  obtain x rest where ch: "channels b = x # rest" and len: "length x = buf_length b"
    using assms(1) by (cases "channels b") (auto simp: wf_buffer_def)
  have g: "getChannelData b 0 = Inr x"
    by (simp add: getChannelData_def numberOfChannels_def ch)
  have "0 \<le> minSilenceSamples b s"
    using assms(2) by (rule minSilenceSamples_nonneg)
  from scan_inv_total[OF this, of x "silenceThreshold s"] obtain t where
    t: "scan x (silenceThreshold s) (minSilenceSamples b s)
          \<lparr>st_i = 0, st_speechStart = - 1, st_chunks = []\<rparr> = Some t"
    and inv: "scan_inv (length x) t" by blast
  let ?cs = "if st_speechStart t \<ge> 0
             then st_chunks t @ [\<lparr>start = st_speechStart t, end' = real (length x)\<rparr>]
             else st_chunks t"
  have r: "detectSpeechChunks b s = Some (Inr ?cs)"
    by (simp add: detectSpeechChunks_def g t)
  have ok: "chunks_ok (buf_length b) ?cs"
    using chunks_ok_final[OF inv] len by simp
  then have "\<forall>k. Suc k < length ?cs \<longrightarrow> end' (?cs ! k) \<le> start (?cs ! Suc k)"
    unfolding chunks_ok_def by (meson lessI sorted_wrt_nth_less)
  with ok r show ?thesis
    unfolding chunks_ok_def by blast
qed

theorem chunks_ordered_witness:
  "wf_buffer \<lparr>sampleRate = 2, buf_length = 4, channels = [[1 / 2, 0, 0, 1 / 2]]\<rparr> \<and>
   0 \<le> minSilenceDuration
         \<lparr>silenceThreshold = 1 / 10, minSilenceDuration = 1 / 2, pauseMultiplier = 1\<rparr> \<and>
   (\<exists>cs. detectSpeechChunks
            \<lparr>sampleRate = 2, buf_length = 4, channels = [[1 / 2, 0, 0, 1 / 2]]\<rparr>
            \<lparr>silenceThreshold = 1 / 10, minSilenceDuration = 1 / 2, pauseMultiplier = 1\<rparr>
          = Some (Inr cs) \<and>
      (\<forall>c\<in>set cs. 0 \<le> start c \<and> start c < end' c \<and> end' c \<le> real 4) \<and>
      (\<forall>k. Suc k < length cs \<longrightarrow> end' (cs ! k) \<le> start (cs ! Suc k)))"
  using chunks_ordered
          [of "\<lparr>sampleRate = 2, buf_length = 4, channels = [[1 / 2, 0, 0, 1 / 2]]\<rparr>"
              "\<lparr>silenceThreshold = 1 / 10, minSilenceDuration = 1 / 2, pauseMultiplier = 1\<rparr>"]
  by (simp add: wf_buffer_def)

text \<open>
  The bound on \<open>minSilenceDuration\<close> is needed for the loop to end: with a window of
  \<open>-2\<close> samples the scan of \<open>[1, 0]\<close> closes the chunk at index 1, steps back to index
  0, and repeats for ever.
\<close>

lemma scan_negative_window_diverges:
  "scan [1, 0] (1 / 2) (- 2) \<lparr>st_i = 0, st_speechStart = - 1, st_chunks = []\<rparr> = None"
proof -
  define C :: "real list \<Rightarrow> real \<Rightarrow> real \<Rightarrow> scan_state \<Rightarrow> bool" where
    "C xs thr m s \<longleftrightarrow> xs = [1, 0] \<and> thr = 1 / 2 \<and> m = - 2 \<and>
       ((st_i s = 0 \<and> st_speechStart s = - 1) \<or> (st_i s = 1 \<and> st_speechStart s = 0))"
    for xs thr m s
  have step: "\<not> C xs thr m s"
    if IH: "\<And>xs thr m s y. scan' xs thr m s = Some y \<Longrightarrow> \<not> C xs thr m s"
      and body: "(if st_i s < real (length xs)
                  then scan' xs thr m (iteration xs thr m s) else Some s) = Some y"
    for scan' xs thr m s y
  proof
    assume c: "C xs thr m s"
    then have "st_i s < real (length xs)"
      by (auto simp: C_def)
    with body have r: "scan' xs thr m (iteration xs thr m s) = Some y"
      by simp
    from c have "C xs thr m (iteration xs thr m s)"
      unfolding C_def
      by (elim conjE disjE)
        (simp_all add: iteration_def Let_def exceedsThreshold_def belowThreshold_def
          getSample_def lookahead.simps)
    with IH[OF r] show False by simp
  qed
  show ?thesis
  proof (cases "scan [1, 0] (1 / 2) (- 2) \<lparr>st_i = 0, st_speechStart = - 1, st_chunks = []\<rparr>")
    case (Some y)
    have "\<not> C [1, 0] (1 / 2) (- 2) \<lparr>st_i = 0, st_speechStart = - 1, st_chunks = []\<rparr>"
      by (rule scan.raw_induct[where P = "\<lambda>xs thr m s y. \<not> C xs thr m s", OF step Some])
    then show ?thesis by (simp add: C_def)
  qed simp
qed

lemma negative_duration_diverges:
  "detectSpeechChunks \<lparr>sampleRate = 2, buf_length = 2, channels = [[1, 0]]\<rparr>
     \<lparr>silenceThreshold = 1 / 2, minSilenceDuration = - 1, pauseMultiplier = 1\<rparr> = None"
  by (simp add: detectSpeechChunks_def getChannelData_def numberOfChannels_def
      minSilenceSamples_def scan_negative_window_diverges)

lemma floor_index_less: "k < n \<Longrightarrow> \<lfloor>real k\<rfloor> < \<lfloor>real n\<rfloor>"
  by simp

lemma iteration_no_onset:
  assumes "\<not> exceedsThreshold xs thr (st_i t)" "st_speechStart t < 0"
  shows "iteration xs thr m t = t\<lparr>st_i := fl64 (st_i t + 1)\<rparr>"
  using assms by (simp add: iteration_def Let_def)

lemma scan_all_silent:
  assumes "\<forall>v\<in>set xs. \<not> \<bar>v\<bar> > thr"
  shows "\<exists>t. scan xs thr m \<lparr>st_i = 0, st_speechStart = - 1, st_chunks = []\<rparr> = Some t \<and>
             st_speechStart t = - 1 \<and> st_chunks t = []"
proof -
  have ne: "\<not> exceedsThreshold xs thr i" for i
    using assms by (auto dest!: exceedsThresholdD)
  let ?P = "\<lambda>t. st_speechStart t = - 1 \<and> st_chunks t = []"
  have "?P \<lparr>st_i = 0, st_speechStart = - 1, st_chunks = []\<rparr>" by simp
  moreover have "?P (iteration xs thr m t) \<and> \<lfloor>st_i t\<rfloor> < \<lfloor>st_i (iteration xs thr m t)\<rfloor>"
    if "?P t" for t
  proof -
    have "\<lfloor>st_i t\<rfloor> + 1 \<le> \<lfloor>fl64 (st_i t + 1)\<rfloor>"
      by (rule fl64_advance) simp
    with that show ?thesis
      by (simp add: iteration_no_onset[OF ne])
  qed
  ultimately show ?thesis
    using scan_rule[of ?P _ xs thr m] by blast
qed

text \<open>
  C5. When every sample's magnitude is below \<open>silenceThreshold\<close>, segmentation returns
  the empty chunk list, whatever the other settings are; and when segmentation returns the
  empty list, \<open>processAudioFile\<close> fails with its "Could not detect any speech" error
  after the second progress message, producing no output.
\<close>

theorem no_speech_detected:
  "(channels b \<noteq> [] \<and> (\<forall>c\<in>set (channels b). \<forall>v\<in>set c. \<bar>v\<bar> < silenceThreshold s)
      \<longrightarrow> detectSpeechChunks b s = Some (Inr [])) \<and>
   (decodeAudio decodeAudioData file = Inr b \<and> detectSpeechChunks b s = Some (Inr [])
      \<longrightarrow> processAudioFile decodeAudioData lamejs_global file s =
            Some ([''Step 1/4: Decoding audio...'', ''Step 2/4: Analyzing for speech...''],
                  Inl (Error ''Could not detect any speech. Please try adjusting the 'Silence Threshold' slider to be lower.'')))"
proof (intro conjI impI)
  assume a: "channels b \<noteq> [] \<and> (\<forall>c\<in>set (channels b). \<forall>v\<in>set c. \<bar>v\<bar> < silenceThreshold s)"
  then obtain x rest where ch: "channels b = x # rest"
    by (cases "channels b") auto
  have g: "getChannelData b 0 = Inr x"
    by (simp add: getChannelData_def numberOfChannels_def ch)
  from a ch have "\<forall>v\<in>set x. \<not> \<bar>v\<bar> > silenceThreshold s"
    by fastforce
  from scan_all_silent[OF this, of "minSilenceSamples b s"] obtain t where
    "scan x (silenceThreshold s) (minSilenceSamples b s)
       \<lparr>st_i = 0, st_speechStart = - 1, st_chunks = []\<rparr> = Some t"
    "st_speechStart t = - 1" "st_chunks t = []" by blast
  then show "detectSpeechChunks b s = Some (Inr [])"
    by (simp add: detectSpeechChunks_def g)
next
  assume "decodeAudio decodeAudioData file = Inr b \<and> detectSpeechChunks b s = Some (Inr [])"
  then show "processAudioFile decodeAudioData lamejs_global file s =
            Some ([''Step 1/4: Decoding audio...'', ''Step 2/4: Analyzing for speech...''],
                  Inl (Error ''Could not detect any speech. Please try adjusting the 'Silence Threshold' slider to be lower.''))"
    by (simp add: processAudioFile_def)
qed

theorem no_speech_detected_witness:
  "detectSpeechChunks \<lparr>sampleRate = 16000, buf_length = 3, channels = [[0, 1 / 100, - 1 / 50]]\<rparr>
      \<lparr>silenceThreshold = 7 / 100, minSilenceDuration = 7 / 10, pauseMultiplier = 3 / 2\<rparr>
     = Some (Inr []) \<and>
   processAudioFile
      (\<lambda>bytes. Inr \<lparr>sampleRate = 16000, buf_length = 3, channels = [[0, 1 / 100, - 1 / 50]]\<rparr>)
      (None :: unit lamejs option) \<lparr>file_name = ''a.wav'', file_bytes = []\<rparr>
      \<lparr>silenceThreshold = 7 / 100, minSilenceDuration = 7 / 10, pauseMultiplier = 3 / 2\<rparr>
     = Some ([''Step 1/4: Decoding audio...'', ''Step 2/4: Analyzing for speech...''],
             Inl (Error ''Could not detect any speech. Please try adjusting the 'Silence Threshold' slider to be lower.''))"
  using no_speech_detected
          [of "\<lparr>sampleRate = 16000, buf_length = 3, channels = [[0, 1 / 100, - 1 / 50]]\<rparr>"
              "\<lparr>silenceThreshold = 7 / 100, minSilenceDuration = 7 / 10, pauseMultiplier = 3 / 2\<rparr>"
              "\<lambda>bytes. Inr \<lparr>sampleRate = 16000, buf_length = 3, channels = [[0, 1 / 100, - 1 / 50]]\<rparr>"
              "\<lparr>file_name = ''a.wav'', file_bytes = []\<rparr>" "None :: unit lamejs option"]
  by (simp add: decodeAudio_def)

lemma firstOnset_less:
  assumes "\<exists>v\<in>set xs. \<bar>v\<bar> > thr"
  shows "firstOnset xs thr < length xs"
proof -
  let ?P = "\<lambda>v. \<not> \<bar>v\<bar> > thr"
  have "takeWhile ?P xs \<noteq> xs"
    using assms by (simp add: takeWhile_eq_all_conv)
  then have "length (takeWhile ?P xs) \<noteq> length xs"
    by (metis takeWhile_eq_take take_all_iff order_refl)
  with length_takeWhile_le[of ?P xs] show ?thesis
    by (simp add: firstOnset_def)
qed

lemma firstOnset_loud:
  assumes "firstOnset xs thr < length xs"
  shows "\<bar>xs ! firstOnset xs thr\<bar> > thr"
  using nth_length_takeWhile[of "\<lambda>v. \<not> \<bar>v\<bar> > thr" xs] assms
  unfolding firstOnset_def by simp

lemma before_firstOnset:
  assumes "k < firstOnset xs thr"
  shows "\<not> \<bar>xs ! k\<bar> > thr"
proof -
  let ?P = "\<lambda>v. \<not> \<bar>v\<bar> > thr"
  from assms have k: "k < length (takeWhile ?P xs)" by (simp add: firstOnset_def)
  then have "takeWhile ?P xs ! k \<in> set (takeWhile ?P xs)" by (rule nth_mem)
  then have "?P (takeWhile ?P xs ! k)" by (rule set_takeWhileD[THEN conjunct2])
  with k show ?thesis by (simp add: takeWhile_nth)
qed

lemma lookahead_finds:
  assumes "k \<le> j" "real j < stop" "j < length xs" "\<bar>xs ! j\<bar> > thr"
  shows "\<exists>n. lookahead xs thr stop (real k) = Some (real n) \<and> k \<le> n \<and> n < length xs"
proof (cases "lookahead xs thr stop (real k)")
  case None
  have "\<not> exceedsThreshold xs thr (real k + real (j - k))"
    using assms by (intro lookahead_NoneD[OF None]) simp_all
  moreover have "real k + real (j - k) = real j" using assms(1) by simp
  ultimately show ?thesis using assms(3,4) by (simp add: exceedsThreshold_nat)
next
  case (Some r)
  from lookahead_SomeD[OF Some] have le: "real k \<le> r" and ex: "exceedsThreshold xs thr r"
    by simp_all
  from exceedsThresholdD[OF ex] obtain n where "r = real n" "n < length xs" by blast
  with le Some show ?thesis by auto
qed

lemma scan_single_chunk:
  fixes xs :: "real list" and thr m :: real
  defines "onset \<equiv> firstOnset xs thr"
  assumes loud: "\<exists>v\<in>set xs. \<bar>v\<bar> > thr"
    and H: "\<And>i. onset \<le> i \<Longrightarrow> i < length xs \<Longrightarrow> \<bar>xs ! i\<bar> < thr \<Longrightarrow>
              \<exists>j. i \<le> j \<and> real j < fl64 (real i + m) \<and> j < length xs \<and> \<bar>xs ! j\<bar> > thr"
  shows "\<exists>t. scan xs thr m \<lparr>st_i = 0, st_speechStart = - 1, st_chunks = []\<rparr> = Some t \<and>
             st_speechStart t = real onset \<and> st_chunks t = []"
proof -
  have o_lt: "onset < length xs"
    unfolding onset_def using loud by (rule firstOnset_less)
  have o_loud: "exceedsThreshold xs thr (real onset)"
    using o_lt firstOnset_loud[of xs thr] by (simp add: exceedsThreshold_nat onset_def)
  let ?P = "\<lambda>t. \<exists>k::nat. st_i t = real k \<and> st_chunks t = [] \<and>
              ((k \<le> onset \<and> st_speechStart t = - 1) \<or>
               (onset < k \<and> st_speechStart t = real onset))"
  have step: "?P (iteration xs thr m t) \<and> \<lfloor>st_i t\<rfloor> < \<lfloor>st_i (iteration xs thr m t)\<rfloor>"
    if P: "?P t" and lt: "st_i t < real (length xs)" for t
  proof -
    from P obtain k :: nat where k: "st_i t = real k" and cs: "st_chunks t = []"
      and d: "(k \<le> onset \<and> st_speechStart t = - 1) \<or>
              (onset < k \<and> st_speechStart t = real onset)" by blast
    from lt k have klt: "k < length xs" by simp
    consider (before) "k < onset" "st_speechStart t = - 1"
      | (at) "k = onset" "st_speechStart t = - 1"
      | (after) "onset < k" "st_speechStart t = real onset"
      using d by linarith
    then show ?thesis
    proof cases
      case before
      have "\<not> exceedsThreshold xs thr (st_i t)"
        using before_firstOnset[of k xs thr] before(1)
        by (simp add: k exceedsThreshold_nat onset_def)
      then have "iteration xs thr m t = t\<lparr>st_i := fl64 (st_i t + 1)\<rparr>"
        using before(2) by (intro iteration_no_onset) simp_all
      then have "iteration xs thr m t = t\<lparr>st_i := real (Suc k)\<rparr>"
        by (simp add: k)
      then show ?thesis
        using before cs k floor_index_less[of k "Suc k"]
        by (auto simp del: of_nat_Suc intro!: exI[of _ "Suc k"])
    next
      case at
      have ex: "exceedsThreshold xs thr (st_i t)"
        using o_loud at(1) k by simp
      then have "\<not> belowThreshold xs thr (st_i t)"
        by (rule not_below_and_exceeds)
      with ex at(2) have "iteration xs thr m t =
          \<lparr>st_i = real (Suc k), st_speechStart = st_i t, st_chunks = st_chunks t\<rparr>"
        by (simp add: iteration_def Let_def k)
      then show ?thesis
        using at cs k floor_index_less[of k "Suc k"]
        by (auto simp del: of_nat_Suc intro!: exI[of _ "Suc onset"])
    next
      case after
      have ss: "(if exceedsThreshold xs thr (st_i t) \<and> st_speechStart t < 0
                 then st_i t else st_speechStart t) = st_speechStart t"
        using after(2) by simp
      show ?thesis
      proof (cases "belowThreshold xs thr (st_i t)")
        case False
        then have "iteration xs thr m t =
            \<lparr>st_i = real (Suc k), st_speechStart = st_speechStart t, st_chunks = st_chunks t\<rparr>"
          unfolding iteration_def Let_def ss by (simp add: k)
        then show ?thesis
          using after cs k floor_index_less[of k "Suc k"]
          by (auto simp del: of_nat_Suc intro!: exI[of _ "Suc k"])
      next
        case True
        then have "\<bar>xs ! k\<bar> < thr" by (simp add: k belowThreshold_nat)
        from H[OF _ klt this] after(1) obtain j where
          "k \<le> j" "real j < fl64 (real k + m)" "j < length xs" "\<bar>xs ! j\<bar> > thr" by auto
        from lookahead_finds[OF this] obtain n where
          n: "lookahead xs thr (fl64 (real k + m)) (real k) = Some (real n)" "k \<le> n" by blast
        have "iteration xs thr m t =
            \<lparr>st_i = real (Suc n), st_speechStart = st_speechStart t, st_chunks = st_chunks t\<rparr>"
          using True n(1) after(2) unfolding iteration_def Let_def ss by (simp add: k)
        then show ?thesis
          using after cs k n(2) floor_index_less[of k "Suc n"]
          by (auto simp del: of_nat_Suc intro!: exI[of _ "Suc n"])
      qed
    qed
  qed
  have "?P \<lparr>st_i = 0, st_speechStart = - 1, st_chunks = []\<rparr>"
    by (auto intro!: exI[of _ 0])
  from scan_rule[of ?P _ xs thr m, OF this step] obtain t where
    t: "scan xs thr m \<lparr>st_i = 0, st_speechStart = - 1, st_chunks = []\<rparr> = Some t"
    and Pt: "?P t" and fin: "\<not> st_i t < real (length xs)" by blast
  from Pt fin o_lt have "st_speechStart t = real onset \<and> st_chunks t = []"
    by auto
  with t show ?thesis by blast
qed

text \<open>
  C3, as amended. If some sample of the first channel exceeds the threshold, and every
  below-threshold sample from the first onset on, at index \<open>i\<close>, is followed before the
  end of the buffer by a sample that exceeds the threshold at an index below the window
  bound \<open>i + minSilenceSamples\<close> as the code computes it, in double precision, then
  segmentation returns exactly one chunk, from the first onset to the end of the buffer.
\<close>

theorem single_chunk_to_end:
  assumes "channels b = xs # others"
    and "\<exists>v\<in>set xs. \<bar>v\<bar> > silenceThreshold s"
    and "\<forall>i. firstOnset xs (silenceThreshold s) \<le> i \<and> i < length xs \<and>
              \<bar>xs ! i\<bar> < silenceThreshold s \<longrightarrow>
            (\<exists>j. i \<le> j \<and> real j < fl64 (real i + minSilenceSamples b s) \<and> j < length xs \<and>
                 \<bar>xs ! j\<bar> > silenceThreshold s)"
  shows "detectSpeechChunks b s =
           Some (Inr [\<lparr>start = real (firstOnset xs (silenceThreshold s)),
                       end' = real (length xs)\<rparr>])"
proof -
  have g: "getChannelData b 0 = Inr xs"
    by (simp add: getChannelData_def numberOfChannels_def assms(1))
  from scan_single_chunk[OF assms(2), of "minSilenceSamples b s"] assms(3)
  obtain t where
    "scan xs (silenceThreshold s) (minSilenceSamples b s)
       \<lparr>st_i = 0, st_speechStart = - 1, st_chunks = []\<rparr> = Some t"
    "st_speechStart t = real (firstOnset xs (silenceThreshold s))" "st_chunks t = []"
    by blast
  then show ?thesis
    by (simp add: detectSpeechChunks_def g)
qed

theorem single_chunk_to_end_witness:
  "detectSpeechChunks
     \<lparr>sampleRate = 4, buf_length = 6, channels = [[0, 1 / 2, 0, 0, 1 / 2, 1 / 10]]\<rparr>
     \<lparr>silenceThreshold = 1 / 10, minSilenceDuration = 3 / 4, pauseMultiplier = 1\<rparr>
   = Some (Inr [\<lparr>start = 1, end' = 6\<rparr>])"
proof -
  let ?xs = "[0, 1 / 2, 0, 0, 1 / 2, 1 / 10] :: real list"
  let ?b = "\<lparr>sampleRate = 4, buf_length = 6, channels = [?xs]\<rparr>"
  let ?s = "\<lparr>silenceThreshold = 1 / 10, minSilenceDuration = 3 / 4, pauseMultiplier = 1\<rparr>"
  have o: "firstOnset ?xs (silenceThreshold ?s) = 1"
    by (simp add: firstOnset_def)
  have "\<exists>j. i \<le> j \<and> real j < fl64 (real i + minSilenceSamples ?b ?s) \<and> j < length ?xs \<and>
            \<bar>?xs ! j\<bar> > silenceThreshold ?s"
    if "firstOnset ?xs (silenceThreshold ?s) \<le> i \<and> i < length ?xs \<and>
        \<bar>?xs ! i\<bar> < silenceThreshold ?s" for i
  proof -
    from that have "i = 2 \<or> i = 3"
      unfolding o by (cases "i = 1"; cases "i = 4"; cases "i = 5") (auto simp: nth_Cons')
    then show ?thesis
      by (auto intro!: exI[of _ 4] simp: minSilenceSamples_def)
  qed
  then show ?thesis
    using single_chunk_to_end[of ?b ?xs "[]" ?s] o by simp
qed

text \<open>
  C3 as stated fails when the buffer ends in a silence shorter than the window: the inner
  loop also stops at the end of the buffer, with \<open>isSilenceLongEnough\<close> still true, so
  the chunk is closed where the silence began. Here the longest silent run has 2 samples,
  the window has 4800, and the chunk is \<open>(0, 1)\<close>, not \<open>(0, 3)\<close>.
\<close>

theorem trailing_silence_counterexample:
  "firstOnset [1 / 2, 0, 0] (7 / 100) < length [1 / 2, 0, 0 :: real] \<and>
   real (longestSilentRun [1 / 2, 0, 0] (7 / 100)) <
     minSilenceSamples \<lparr>sampleRate = 16000, buf_length = 3, channels = [[1 / 2, 0, 0]]\<rparr>
       \<lparr>silenceThreshold = 7 / 100, minSilenceDuration = 3 / 10, pauseMultiplier = 1\<rparr> \<and>
   detectSpeechChunks \<lparr>sampleRate = 16000, buf_length = 3, channels = [[1 / 2, 0, 0]]\<rparr>
       \<lparr>silenceThreshold = 7 / 100, minSilenceDuration = 3 / 10, pauseMultiplier = 1\<rparr>
     = Some (Inr [\<lparr>start = 0, end' = 1\<rparr>]) \<and>
   detectSpeechChunks \<lparr>sampleRate = 16000, buf_length = 3, channels = [[1 / 2, 0, 0]]\<rparr>
       \<lparr>silenceThreshold = 7 / 100, minSilenceDuration = 3 / 10, pauseMultiplier = 1\<rparr>
     \<noteq> Some (Inr [\<lparr>start = real (firstOnset [1 / 2, 0, 0] (7 / 100)), end' = 3\<rparr>])"
  by (simp add: longestSilentRun_def minSilenceSamples_def firstOnset_def
      detectSpeechChunks_def getChannelData_def numberOfChannels_def scan.simps iteration_def
      exceedsThreshold_def belowThreshold_def getSample_def lookahead.simps)

lemma scan_rounded_window:
  assumes "fl64 (1 + m) = 2"
  shows "scan [1, 0, 1] (1 / 2) m \<lparr>st_i = 0, st_speechStart = - 1, st_chunks = []\<rparr>
         = Some \<lparr>st_i = 3, st_speechStart = - 1, st_chunks = [\<lparr>start = 0, end' = 1\<rparr>]\<rparr>"
  using assms
  by (simp add: scan.simps iteration_def
        exceedsThreshold_def belowThreshold_def getSample_def lookahead.simps)

text \<open>
  The window bound is the rounded sum. At 1 Hz with a \<open>minSilenceDuration\<close> of
  \<open>1 + 1 / 2^52\<close> s, the bound at index 1 is the double nearest to \<open>2 + 1 / 2^52\<close>, which
  is 2: the look-ahead stops before the onset at index 2, which an unrounded bound would
  have let it reach, and the chunk is closed at index 1.
\<close>

lemma window_bound_is_rounded:
  "detectSpeechChunks \<lparr>sampleRate = 1, buf_length = 3, channels = [[1, 0, 1]]\<rparr>
     \<lparr>silenceThreshold = 1 / 2, minSilenceDuration = 1 + 1 / 2 ^ 52, pauseMultiplier = 1\<rparr>
   = Some (Inr [\<lparr>start = 0, end' = 1\<rparr>])"
proof -
  define d :: real where "d = 1 + 1 / 2 ^ 52"
  have m: "fl64 d = d"
    unfolding d_def using fl64_eval[of "1 + 1 / 2 ^ 52" 52] by (simp add: roundTiesToEven_def)
  have w: "fl64 (1 + d) = 2"
    unfolding d_def using fl64_eval[of "1 + (1 + 1 / 2 ^ 52)" 51]
    by (simp add: roundTiesToEven_def)
  have "detectSpeechChunks \<lparr>sampleRate = 1, buf_length = 3, channels = [[1, 0, 1]]\<rparr>
     \<lparr>silenceThreshold = 1 / 2, minSilenceDuration = d, pauseMultiplier = 1\<rparr>
   = Some (Inr [\<lparr>start = 0, end' = 1\<rparr>])"
    by (simp add: detectSpeechChunks_def getChannelData_def numberOfChannels_def
        minSilenceSamples_def m scan_rounded_window[OF w])
  then show ?thesis by (simp only: d_def)
qed

text \<open>
  The same at 48000 Hz with a \<open>minSilenceDuration\<close> of the double nearest to 0.55 s: the
  window is \<open>26400 + 1 / 2^38\<close> samples, and the bound at index 40000 is rounded to 66400.
  With 26400 silent samples from index 40000 on and speech at indices 66400 and 66401, the
  look-ahead stops before index 66400, although 66400 is below the exact sum, and the
  chunks are \<open>(0, 40000)\<close> and \<open>(66401, 66402)\<close>.
\<close>

lemma window_bound_48000:
  "minSilenceSamples \<lparr>sampleRate = 48000, buf_length = n, channels = cs\<rparr>
     \<lparr>silenceThreshold = thr, minSilenceDuration = fl64 (11 / 20), pauseMultiplier = pm\<rparr>
   = 26400 + 1 / 2 ^ 38 \<and>
   fl64 (real 40000 +
     minSilenceSamples \<lparr>sampleRate = 48000, buf_length = n, channels = cs\<rparr>
       \<lparr>silenceThreshold = thr, minSilenceDuration = fl64 (11 / 20), pauseMultiplier = pm\<rparr>)
   = 66400"
proof -
  define D :: real where "D = fl64 (11 / 20)"
  have D: "D = 2476979795053773 / 2 ^ 52"
    unfolding D_def using fl64_eval[of "11 / 20" 53] by (simp add: roundTiesToEven_def)
  define M where "M = fl64 (48000 * D)"
  have M: "M = 26400 + 1 / 2 ^ 38"
    unfolding M_def D using fl64_eval[of "48000 * (2476979795053773 / 2 ^ 52)" 38]
    by (simp add: roundTiesToEven_def)
  have S: "fl64 (40000 + M) = 66400"
    unfolding M using fl64_eval[of "40000 + (26400 + 1 / 2 ^ 38)" 36]
    by (simp add: roundTiesToEven_def)
  have ms: "minSilenceSamples \<lparr>sampleRate = 48000, buf_length = n, channels = cs\<rparr>
     \<lparr>silenceThreshold = thr, minSilenceDuration = D, pauseMultiplier = pm\<rparr> = M"
    by (simp add: minSilenceSamples_def M_def)
  have n: "real 40000 = 40000" by simp
  show ?thesis
    unfolding D_def[symmetric] ms n
  proof (intro conjI)
    show "M = 26400 + 1 / 2 ^ 38" by (rule M)
    show "fl64 (40000 + M) = 66400" by (rule S)
  qed
qed

lemma scan_rounded_bound:
  fixes xs :: "real list"
  assumes len: "length xs = 66402"
    and loud: "\<And>i. i < 40000 \<Longrightarrow> \<bar>xs ! i\<bar> = 1 / 2"
    and quiet: "\<And>i. 40000 \<le> i \<Longrightarrow> i < 66400 \<Longrightarrow> xs ! i = 0"
    and last: "xs ! 66401 = 1 / 2"
    and m: "fl64 (40000 + m) = 66400"
  shows "\<exists>t. scan xs (7 / 100) m \<lparr>st_i = 0, st_speechStart = - 1, st_chunks = []\<rparr> = Some t \<and>
             st_speechStart t = 66401 \<and> st_chunks t = [\<lparr>start = 0, end' = 40000\<rparr>]"
proof -
  let ?thr = "7 / 100 :: real"
  have ex1: "exceedsThreshold xs ?thr (real k)" if "k < 40000" for k
    using that loud[of k] len by (simp add: exceedsThreshold_nat)
  have ex2: "\<not> exceedsThreshold xs ?thr r" if "40000 \<le> r" "r < 66400" for r
  proof
    assume "exceedsThreshold xs ?thr r"
    from exceedsThresholdD[OF this] obtain n where n: "r = real n" "n < length xs" "\<bar>xs ! n\<bar> > ?thr"
      by blast
    with that quiet[of n] show False by simp
  qed
  have be: "belowThreshold xs ?thr 40000"
    using belowThreshold_nat[of xs ?thr 40000] quiet[of 40000] len by simp
  have ex3: "exceedsThreshold xs ?thr 66401"
    using exceedsThreshold_nat[of xs ?thr 66401] last len by simp
  let ?P = "\<lambda>t. \<exists>k::nat. st_i t = real k \<and>
              ((k = 0 \<and> st_speechStart t = - 1 \<and> st_chunks t = []) \<or>
               (1 \<le> k \<and> k \<le> 40000 \<and> st_speechStart t = 0 \<and> st_chunks t = []) \<or>
               (k = 66401 \<and> st_speechStart t = - 1 \<and>
                st_chunks t = [\<lparr>start = 0, end' = 40000\<rparr>]) \<or>
               (k = 66402 \<and> st_speechStart t = 66401 \<and>
                st_chunks t = [\<lparr>start = 0, end' = 40000\<rparr>]))"
  have step: "?P (iteration xs ?thr m t) \<and>
                \<lfloor>st_i t\<rfloor> < \<lfloor>st_i (iteration xs ?thr m t)\<rfloor>"
    if P: "?P t" and lt: "st_i t < real (length xs)" for t
  proof -
    from P obtain k :: nat where k: "st_i t = real k"
      and d: "(k = 0 \<and> st_speechStart t = - 1 \<and> st_chunks t = []) \<or>
              (1 \<le> k \<and> k \<le> 40000 \<and> st_speechStart t = 0 \<and> st_chunks t = []) \<or>
              (k = 66401 \<and> st_speechStart t = - 1 \<and>
               st_chunks t = [\<lparr>start = 0, end' = 40000\<rparr>]) \<or>
              (k = 66402 \<and> st_speechStart t = 66401 \<and>
               st_chunks t = [\<lparr>start = 0, end' = 40000\<rparr>])" by blast
    from lt k len have "k \<noteq> 66402" by auto
    with d consider (first) "k = 0" "st_speechStart t = - 1" "st_chunks t = []"
      | (speech) "1 \<le> k" "k < 40000" "st_speechStart t = 0" "st_chunks t = []"
      | (silence) "k = 40000" "st_speechStart t = 0" "st_chunks t = []"
      | (onset) "k = 66401" "st_speechStart t = - 1"
          "st_chunks t = [\<lparr>start = 0, end' = 40000\<rparr>]"
      by (cases "k = 40000") auto
    then show ?thesis
    proof cases
      case first
      have ex: "exceedsThreshold xs ?thr (st_i t)"
        using ex1[of 0] first(1) k by simp
      then have "\<not> belowThreshold xs ?thr (st_i t)"
        by (rule not_below_and_exceeds)
      with ex first have "iteration xs ?thr m t =
          \<lparr>st_i = 1, st_speechStart = 0, st_chunks = []\<rparr>"
        by (simp add: iteration_def Let_def k)
      then show ?thesis
        using k first by (auto intro!: exI[of _ 1])
    next
      case speech
      have ex: "exceedsThreshold xs ?thr (st_i t)"
        using ex1[of k] speech(2) k by simp
      then have "\<not> belowThreshold xs ?thr (st_i t)"
        by (rule not_below_and_exceeds)
      with speech have "iteration xs ?thr m t =
          \<lparr>st_i = real (Suc k), st_speechStart = 0, st_chunks = []\<rparr>"
        by (simp add: iteration_def Let_def k)
      then show ?thesis
        using k speech floor_index_less[of k "Suc k"]
        by (auto simp del: of_nat_Suc intro!: exI[of _ "Suc k"])
    next
      case silence
      have nex: "\<not> exceedsThreshold xs ?thr (st_i t)"
        using ex2[of "st_i t"] silence(1) k by simp
      have la: "lookahead xs ?thr 66400 40000 = None"
      proof (cases "lookahead xs ?thr 66400 40000")
        case (Some r)
        from lookahead_SomeD[OF Some] ex2[of r] show ?thesis by simp
      qed simp
      have "iteration xs ?thr m t =
          \<lparr>st_i = 66401, st_speechStart = - 1, st_chunks = [\<lparr>start = 0, end' = 40000\<rparr>]\<rparr>"
        using nex be la silence by (simp add: iteration_def Let_def k m)
      then show ?thesis
        using k silence by (auto intro!: exI[of _ 66401])
    next
      case onset
      have ex: "exceedsThreshold xs ?thr (st_i t)"
        using ex3 onset(1) k by simp
      then have "\<not> belowThreshold xs ?thr (st_i t)"
        by (rule not_below_and_exceeds)
      with ex onset have "iteration xs ?thr m t =
          \<lparr>st_i = 66402, st_speechStart = 66401,
           st_chunks = [\<lparr>start = 0, end' = 40000\<rparr>]\<rparr>"
        by (simp add: iteration_def Let_def k)
      then show ?thesis
        using k onset by (auto intro!: exI[of _ 66402])
    qed
  qed
  have "?P \<lparr>st_i = 0, st_speechStart = - 1, st_chunks = []\<rparr>"
    by (auto intro!: exI[of _ 0])
  from scan_rule[of ?P _ xs ?thr m, OF this step] obtain t where
    t: "scan xs ?thr m \<lparr>st_i = 0, st_speechStart = - 1, st_chunks = []\<rparr> = Some t"
    and Pt: "?P t" and fin: "\<not> st_i t < real (length xs)" by blast
  from Pt fin len
  have "st_speechStart t = 66401 \<and> st_chunks t = [\<lparr>start = 0, end' = 40000\<rparr>]"
    by auto
  with t show ?thesis by blast
qed

lemma rounded_bound_closes_chunk:
  fixes xs :: "real list"
  defines "xs \<equiv> replicate 40000 (1 / 2) @ replicate 26400 0 @ [1 / 2, 1 / 2]"
  defines "b \<equiv> \<lparr>sampleRate = 48000, buf_length = 66402, channels = [xs]\<rparr>"
  defines "s \<equiv> \<lparr>silenceThreshold = 7 / 100, minSilenceDuration = fl64 (11 / 20),
                 pauseMultiplier = 1\<rparr>"
  shows "detectSpeechChunks b s
         = Some (Inr [\<lparr>start = 0, end' = 40000\<rparr>, \<lparr>start = 66401, end' = 66402\<rparr>])"
    and "real 66400 < real 40000 + minSilenceSamples b s"
    and "\<not> real 66400 < fl64 (real 40000 + minSilenceSamples b s)"
proof -
  note w = window_bound_48000[of 66402 "[xs]" "7 / 100" 1, folded b_def s_def]
  have len: "length xs = 66402" by (simp add: xs_def)
  have 1: "\<bar>xs ! i\<bar> = 1 / 2" if "i < 40000" for i
    using that by (simp add: xs_def nth_append)
  have 2: "xs ! i = 0" if "40000 \<le> i" "i < 66400" for i
    using that by (simp add: xs_def nth_append)
  have 3: "xs ! 66401 = 1 / 2"
    by (simp add: xs_def nth_append)
  have m: "fl64 (40000 + minSilenceSamples b s) = 66400"
    using w by simp
  from scan_rounded_bound[OF len 1 2 3 m] obtain t where
    "scan xs (7 / 100) (minSilenceSamples b s)
       \<lparr>st_i = 0, st_speechStart = - 1, st_chunks = []\<rparr> = Some t"
    "st_speechStart t = 66401" "st_chunks t = [\<lparr>start = 0, end' = 40000\<rparr>]"
    by blast
  then show "detectSpeechChunks b s
         = Some (Inr [\<lparr>start = 0, end' = 40000\<rparr>, \<lparr>start = 66401, end' = 66402\<rparr>])"
    by (simp add: detectSpeechChunks_def getChannelData_def numberOfChannels_def
        b_def s_def len)
  show "real 66400 < real 40000 + minSilenceSamples b s"
    using w by simp
  show "\<not> real 66400 < fl64 (real 40000 + minSilenceSamples b s)"
    using w by simp
qed

lemma scan_round_trip:
  fixes xs :: "real list"
  assumes len: "length xs = 64000"
    and loud: "\<And>i. i < 8000 \<Longrightarrow> \<bar>xs ! i\<bar> = 1 / 2"
    and quiet: "\<And>i. 8000 \<le> i \<Longrightarrow> i < 64000 \<Longrightarrow> xs ! i = 0"
  shows "\<exists>t. scan xs (7 / 100) 4800 \<lparr>st_i = 0, st_speechStart = - 1, st_chunks = []\<rparr> = Some t \<and>
             st_speechStart t = - 1 \<and> st_chunks t = [\<lparr>start = 0, end' = 8000\<rparr>]"
proof -
  let ?thr = "7 / 100 :: real"
  have ex1: "exceedsThreshold xs ?thr (real k)" if "k < 8000" for k
    using that loud[of k] len by (simp add: exceedsThreshold_nat)
  have ex2: "\<not> exceedsThreshold xs ?thr r" if "8000 \<le> r" for r
  proof
    assume "exceedsThreshold xs ?thr r"
    from exceedsThresholdD[OF this] obtain n where n: "r = real n" "n < length xs" "\<bar>xs ! n\<bar> > ?thr"
      by blast
    with that len quiet[of n] show False by simp
  qed
  have be: "belowThreshold xs ?thr 8000"
    using belowThreshold_nat[of xs ?thr 8000] quiet[of 8000] len by simp
  let ?P = "\<lambda>t. \<exists>k::nat. st_i t = real k \<and>
              ((k = 0 \<and> st_speechStart t = - 1 \<and> st_chunks t = []) \<or>
               (1 \<le> k \<and> k \<le> 8000 \<and> st_speechStart t = 0 \<and> st_chunks t = []) \<or>
               (12801 \<le> k \<and> st_speechStart t = - 1 \<and>
                st_chunks t = [\<lparr>start = 0, end' = 8000\<rparr>]))"
  have step: "?P (iteration xs ?thr 4800 t) \<and>
                \<lfloor>st_i t\<rfloor> < \<lfloor>st_i (iteration xs ?thr 4800 t)\<rfloor>"
    if P: "?P t" and lt: "st_i t < real (length xs)" for t
  proof -
    from P obtain k :: nat where k: "st_i t = real k"
      and d: "(k = 0 \<and> st_speechStart t = - 1 \<and> st_chunks t = []) \<or>
              (1 \<le> k \<and> k \<le> 8000 \<and> st_speechStart t = 0 \<and> st_chunks t = []) \<or>
              (12801 \<le> k \<and> st_speechStart t = - 1 \<and>
               st_chunks t = [\<lparr>start = 0, end' = 8000\<rparr>])" by blast
    consider (first) "k = 0" "st_speechStart t = - 1" "st_chunks t = []"
      | (speech) "1 \<le> k" "k < 8000" "st_speechStart t = 0" "st_chunks t = []"
      | (silence) "k = 8000" "st_speechStart t = 0" "st_chunks t = []"
      | (rest) "12801 \<le> k" "st_speechStart t = - 1" "st_chunks t = [\<lparr>start = 0, end' = 8000\<rparr>]"
      using d by (cases "k = 8000") auto
    then show ?thesis
    proof cases
      case first
      have ex: "exceedsThreshold xs ?thr (st_i t)"
        using ex1[of 0] first(1) k by simp
      then have "\<not> belowThreshold xs ?thr (st_i t)"
        by (rule not_below_and_exceeds)
      with ex first have "iteration xs ?thr 4800 t =
          \<lparr>st_i = 1, st_speechStart = 0, st_chunks = []\<rparr>"
        by (simp add: iteration_def Let_def k)
      then show ?thesis
        using k first by (auto intro!: exI[of _ 1])
    next
      case speech
      have ex: "exceedsThreshold xs ?thr (st_i t)"
        using ex1[of k] speech(2) k by simp
      then have "\<not> belowThreshold xs ?thr (st_i t)"
        by (rule not_below_and_exceeds)
      with speech have "iteration xs ?thr 4800 t =
          \<lparr>st_i = real (Suc k), st_speechStart = 0, st_chunks = []\<rparr>"
        by (simp add: iteration_def Let_def k)
      then show ?thesis
        using k speech floor_index_less[of k "Suc k"]
        by (auto simp del: of_nat_Suc intro!: exI[of _ "Suc k"])
    next
      case silence
      have nex: "\<not> exceedsThreshold xs ?thr (st_i t)"
        using ex2[of "st_i t"] silence(1) k by simp
      have la: "lookahead xs ?thr 12800 8000 = None"
      proof (cases "lookahead xs ?thr 12800 8000")
        case (Some r)
        from lookahead_SomeD[OF Some] ex2[of r] show ?thesis by simp
      qed simp
      have "iteration xs ?thr 4800 t =
          \<lparr>st_i = 12801, st_speechStart = - 1, st_chunks = [\<lparr>start = 0, end' = 8000\<rparr>]\<rparr>"
        using nex be la silence by (simp add: iteration_def Let_def k)
      then show ?thesis
        using k silence by (auto intro!: exI[of _ 12801])
    next
      case rest
      have nex: "\<not> exceedsThreshold xs ?thr (st_i t)"
        using ex2[of "st_i t"] rest(1) k by simp
      then have "iteration xs ?thr 4800 t = t\<lparr>st_i := fl64 (st_i t + 1)\<rparr>"
        using rest(2) by (intro iteration_no_onset) simp_all
      then have "iteration xs ?thr 4800 t = t\<lparr>st_i := real (Suc k)\<rparr>"
        by (simp add: k)
      then show ?thesis
        using k rest floor_index_less[of k "Suc k"]
        by (auto simp del: of_nat_Suc intro!: exI[of _ "Suc k"])
    qed
  qed
  have "?P \<lparr>st_i = 0, st_speechStart = - 1, st_chunks = []\<rparr>"
    by (auto intro!: exI[of _ 0])
  from scan_rule[of ?P _ xs ?thr 4800, OF this step] obtain t where
    t: "scan xs ?thr 4800 \<lparr>st_i = 0, st_speechStart = - 1, st_chunks = []\<rparr> = Some t"
    and Pt: "?P t" and fin: "\<not> st_i t < real (length xs)" by blast
  from Pt fin len have "st_speechStart t = - 1 \<and> st_chunks t = [\<lparr>start = 0, end' = 8000\<rparr>]"
    by auto
  with t show ?thesis by blast
qed

lemma subarray_within:
  fixes xs :: "'a list"
  assumes "a \<le> b" "b \<le> length xs"
  shows "subarray xs (real a) (real b) = take (b - a) (drop a xs)"
  using assms by (simp add: subarray_def relativeIndex_def js_trunc_def Let_def)

lemma padded_round_trip:
  fixes xs :: "real list"
  assumes len: "length xs = 64000"
  shows "createPaddedAudio \<lparr>sampleRate = 16000, buf_length = 64000, channels = [xs]\<rparr>
           [\<lparr>start = 0, end' = 8000\<rparr>]
           \<lparr>silenceThreshold = 7 / 100, minSilenceDuration = 3 / 10, pauseMultiplier = 1\<rparr>
         = Inr \<lparr>sampleRate = 16000, buf_length = 16000,
                channels = [take 8000 xs @ replicate 8000 0]\<rparr>"
proof -
  have sub: "subarray xs 0 8000 = take 8000 xs"
    using subarray_within[of 0 8000 xs] len by simp
  have cp: "ta_set (replicate 16000 0) (subarray xs 0 8000) (js_round 0)
            = Inr (take 8000 xs @ replicate 8000 0)"
    by (simp add: sub ta_set_def js_round_def len)
  show ?thesis
    by (simp add: createPaddedAudio_def accumulateLength_def createBuffer_def
        numberOfChannels_def getChannelData_def cp)
qed

text \<open>
  C1. A mono buffer of 64000 samples at 16 kHz whose samples have magnitude 0.5 on
  \<open>[0, 8000)\<close> and are 0 on \<open>[8000, 64000)\<close>, with threshold 0.07 and
  \<open>minSilenceDuration\<close> 0.3 s (4800 samples): segmentation returns exactly the chunk
  \<open>(0, 8000)\<close>, and resynthesis with \<open>pauseMultiplier\<close> 1 returns a buffer of 16000
  samples, the first 8000 equal to the source's, the other 8000 zero.
\<close>

theorem round_trip_scenario:
  fixes xs :: "real list"
  assumes "length xs = 64000"
    and "\<forall>i<8000. \<bar>xs ! i\<bar> = 1 / 2"
    and "\<forall>i. 8000 \<le> i \<and> i < 64000 \<longrightarrow> xs ! i = 0"
  shows "detectSpeechChunks \<lparr>sampleRate = 16000, buf_length = 64000, channels = [xs]\<rparr>
           \<lparr>silenceThreshold = 7 / 100, minSilenceDuration = 3 / 10, pauseMultiplier = 1\<rparr>
         = Some (Inr [\<lparr>start = 0, end' = 8000\<rparr>]) \<and>
         createPaddedAudio \<lparr>sampleRate = 16000, buf_length = 64000, channels = [xs]\<rparr>
           [\<lparr>start = 0, end' = 8000\<rparr>]
           \<lparr>silenceThreshold = 7 / 100, minSilenceDuration = 3 / 10, pauseMultiplier = 1\<rparr>
         = Inr \<lparr>sampleRate = 16000, buf_length = 16000,
                channels = [take 8000 xs @ replicate 8000 0]\<rparr>"
proof -
  from scan_round_trip[of xs] assms obtain t where
    "scan xs (7 / 100) 4800 \<lparr>st_i = 0, st_speechStart = - 1, st_chunks = []\<rparr> = Some t"
    "st_speechStart t = - 1" "st_chunks t = [\<lparr>start = 0, end' = 8000\<rparr>]"
    by blast
  then have "detectSpeechChunks \<lparr>sampleRate = 16000, buf_length = 64000, channels = [xs]\<rparr>
           \<lparr>silenceThreshold = 7 / 100, minSilenceDuration = 3 / 10, pauseMultiplier = 1\<rparr>
         = Some (Inr [\<lparr>start = 0, end' = 8000\<rparr>])"
    by (simp add: detectSpeechChunks_def getChannelData_def numberOfChannels_def
        minSilenceSamples_def)
  with padded_round_trip[OF assms(1)] show ?thesis by simp
qed

theorem round_trip_scenario_witness:
  "detectSpeechChunks
     \<lparr>sampleRate = 16000, buf_length = 64000,
      channels = [replicate 8000 (1 / 2) @ replicate 56000 0]\<rparr>
     \<lparr>silenceThreshold = 7 / 100, minSilenceDuration = 3 / 10, pauseMultiplier = 1\<rparr>
   = Some (Inr [\<lparr>start = 0, end' = 8000\<rparr>]) \<and>
   createPaddedAudio
     \<lparr>sampleRate = 16000, buf_length = 64000,
      channels = [replicate 8000 (1 / 2) @ replicate 56000 0]\<rparr>
     [\<lparr>start = 0, end' = 8000\<rparr>]
     \<lparr>silenceThreshold = 7 / 100, minSilenceDuration = 3 / 10, pauseMultiplier = 1\<rparr>
   = Inr \<lparr>sampleRate = 16000, buf_length = 16000,
          channels = [replicate 8000 (1 / 2) @ replicate 8000 0]\<rparr>"
proof -
  let ?xs = "replicate 8000 (1 / 2) @ replicate 56000 0 :: real list"
  have 1: "length ?xs = 64000" by simp
  have 2: "\<forall>i<8000. \<bar>?xs ! i\<bar> = 1 / 2" by (simp add: nth_append)
  have 3: "\<forall>i. 8000 \<le> i \<and> i < 64000 \<longrightarrow> ?xs ! i = 0" by (auto simp: nth_append)
  have "take 8000 ?xs = replicate 8000 (1 / 2)" by simp
  with round_trip_scenario[OF 1 2 3] show ?thesis by simp
qed

section \<open>Properties of the resynthesizer\<close>
























section \<open>Properties of the merger and of the orchestrators\<close>

lemma validateLoop_ok:
  assumes "\<forall>b\<in>set bufs. sampleRate b = rate \<and> numberOfChannels b = nch"
  shows "validateLoop rate nch bufs acc = Inr (acc + sum_list (map buf_length bufs))"
  using assms by (induction bufs arbitrary: acc) simp_all

lemma validateLoop_first_mismatch:
  assumes "k < length bufs"
    and "\<forall>j<k. sampleRate (bufs ! j) = rate \<and> numberOfChannels (bufs ! j) = nch"
    and "sampleRate (bufs ! k) \<noteq> rate \<or> numberOfChannels (bufs ! k) \<noteq> nch"
  shows "validateLoop rate nch bufs acc =
           (if sampleRate (bufs ! k) \<noteq> rate
            then Inl (Error (''Mismatched sample rates. All files must have a sample rate of '' @
                             string_of_nat rate @ '' Hz.''))
            else Inl (Error (''Mismatched channel counts. All files must have '' @
                             string_of_nat nch @ '' channel(s).'')))"
  using assms
proof (induction bufs arbitrary: k acc)
  case Nil
  then show ?case by simp
next
  case (Cons b bufs)
  show ?case
  proof (cases k)
    case 0
    with Cons.prems(3) show ?thesis by auto
  next
    case (Suc k')
    from Cons.prems(2) Suc have b: "sampleRate b = rate" "numberOfChannels b = nch"
      by auto
    have "validateLoop rate nch bufs (acc + buf_length b) =
           (if sampleRate (bufs ! k') \<noteq> rate
            then Inl (Error (''Mismatched sample rates. All files must have a sample rate of '' @
                             string_of_nat rate @ '' Hz.''))
            else Inl (Error (''Mismatched channel counts. All files must have '' @
                             string_of_nat nch @ '' channel(s).'')))"
    proof (rule Cons.IH)
      show "k' < length bufs" using Cons.prems(1) Suc by simp
      show "\<forall>j<k'. sampleRate (bufs ! j) = rate \<and> numberOfChannels (bufs ! j) = nch"
        using Cons.prems(2) Suc by auto
      show "sampleRate (bufs ! k') \<noteq> rate \<or> numberOfChannels (bufs ! k') \<noteq> nch"
        using Cons.prems(3) Suc by simp
    qed
    with b Suc show ?thesis by simp
  qed
qed

lemma decodeLoop_length:
  "decodeLoop dec n i files msgs acc = (msgs', Inr bufs) \<Longrightarrow>
     length msgs' = length msgs + length files"
proof (induction files arbitrary: i msgs acc)
  case Nil
  then show ?case by simp
next
  case (Cons f files)
  then show ?case
    by (auto simp: Let_def split: sum.splits)
qed

lemma decodeLoop_ok:
  assumes "map (decodeAudio dec) files = map Inr bufs"
  shows "\<exists>msgs'. decodeLoop dec n i files msgs acc = (msgs', Inr (acc @ bufs)) \<and>
                  length msgs' = length msgs + length files"
  using assms
proof (induction files arbitrary: i msgs acc bufs)
  case Nil
  then show ?case by simp
next
  case (Cons f files)
  from Cons.prems obtain b rest where bufs: "bufs = b # rest"
    and b: "decodeAudio dec f = Inr b" and rest: "map (decodeAudio dec) files = map Inr rest"
    by (cases bufs) auto
  let ?msgs = "msgs @ [''Decoding '' @ string_of_nat (i + 1) @ ''/'' @ string_of_nat n @
                         '': '' @ file_name f @ ''...'']"
  from Cons.IH[OF rest, of "i + 1" ?msgs "acc @ [b]"] show ?case
    by (simp add: Let_def b bufs)
qed

lemma decodeLoop_messages:
  "decodeLoop dec n i files msgs acc = (msgs', Inr bufs) \<Longrightarrow>
     msgs' = msgs @
       map (\<lambda>(k, file). ''Decoding '' @ string_of_nat (k + 1) @ ''/'' @ string_of_nat n @
                          '': '' @ file_name file @ ''...'')
         (enumerate i files)"
proof (induction files arbitrary: i msgs acc)
  case Nil
  then show ?case by simp
next
  case (Cons f files)
  from Cons.prems obtain b where b: "decodeAudio dec f = Inr b"
    by (auto simp: Let_def split: sum.splits)
  let ?m = "''Decoding '' @ string_of_nat (i + 1) @ ''/'' @ string_of_nat n @
            '': '' @ file_name f @ ''...''"
  from Cons.prems b have "decodeLoop dec n (i + 1) files (msgs @ [?m]) (acc @ [b]) = (msgs', Inr bufs)"
    by (simp add: Let_def)
  from Cons.IH[OF this] show ?case by simp
qed

lemma copyChannels_ok:
  assumes "distinct cl" and "\<forall>ch\<in>set cl. ch < nch"
    and "length (channels mb) = nch" and "length (channels buffer) = nch"
    and "\<forall>ch<nch. offset + length (channels buffer ! ch) \<le> length (channels mb ! ch)"
  shows "\<exists>mb'. copyChannels buffer offset cl mb = Inr mb' \<and>
           sampleRate mb' = sampleRate mb \<and> buf_length mb' = buf_length mb \<and>
           length (channels mb') = nch \<and>
           (\<forall>ch<nch. channels mb' ! ch =
              (if ch \<in> set cl
               then take offset (channels mb ! ch) @ channels buffer ! ch @
                    drop (offset + length (channels buffer ! ch)) (channels mb ! ch)
               else channels mb ! ch))"
  using assms(1,2,3,5)
proof (induction cl arbitrary: mb)
  case Nil
  then show ?case by simp
next
  case (Cons c cl)
  from Cons.prems have c: "c < nch" "c \<notin> set cl" by simp_all
  let ?t = "channels mb ! c" and ?src = "channels buffer ! c"
  let ?t' = "take offset ?t @ ?src @ drop (offset + length ?src) ?t"
  have g1: "getChannelData mb c = Inr ?t"
    using c(1) Cons.prems(3) by (simp add: getChannelData_def numberOfChannels_def)
  have g2: "getChannelData buffer c = Inr ?src"
    using c(1) assms(4) by (simp add: getChannelData_def numberOfChannels_def)
  have fit: "offset + length ?src \<le> length ?t"
    using Cons.prems(4) c(1) by simp
  then have ts: "ta_set ?t ?src (int offset) = Inr ?t'"
    by (simp add: ta_set_def)
  have lt': "length ?t' = length ?t"
    using fit by simp
  let ?mb1 = "mb\<lparr>channels := (channels mb)[c := ?t']\<rparr>"
  have "\<exists>mb'. copyChannels buffer offset cl ?mb1 = Inr mb' \<and>
           sampleRate mb' = sampleRate ?mb1 \<and> buf_length mb' = buf_length ?mb1 \<and>
           length (channels mb') = nch \<and>
           (\<forall>ch<nch. channels mb' ! ch =
              (if ch \<in> set cl
               then take offset (channels ?mb1 ! ch) @ channels buffer ! ch @
                    drop (offset + length (channels buffer ! ch)) (channels ?mb1 ! ch)
               else channels ?mb1 ! ch))"
  proof (rule Cons.IH)
    show "distinct cl" using Cons.prems(1) by simp
    show "\<forall>ch\<in>set cl. ch < nch" using Cons.prems(2) by simp
    show "length (channels ?mb1) = nch" using Cons.prems(3) by simp
    show "\<forall>ch<nch. offset + length (channels buffer ! ch) \<le> length (channels ?mb1 ! ch)"
    proof (intro allI impI)
      fix ch assume "ch < nch"
      then have "length (channels ?mb1 ! ch) = length (channels mb ! ch)"
        using Cons.prems(3) lt' by (cases "ch = c") simp_all
      with Cons.prems(4) \<open>ch < nch\<close>
      show "offset + length (channels buffer ! ch) \<le> length (channels ?mb1 ! ch)"
        by simp
    qed
  qed
  then obtain mb' where r: "copyChannels buffer offset cl ?mb1 = Inr mb'"
    and sr: "sampleRate mb' = sampleRate mb" and bl: "buf_length mb' = buf_length mb"
    and ln: "length (channels mb') = nch"
    and chs: "\<forall>ch<nch. channels mb' ! ch =
              (if ch \<in> set cl
               then take offset (channels ?mb1 ! ch) @ channels buffer ! ch @
                    drop (offset + length (channels buffer ! ch)) (channels ?mb1 ! ch)
               else channels ?mb1 ! ch)"
    by auto
  have "channels mb' ! ch =
          (if ch \<in> set (c # cl)
           then take offset (channels mb ! ch) @ channels buffer ! ch @
                drop (offset + length (channels buffer ! ch)) (channels mb ! ch)
           else channels mb ! ch)" if "ch < nch" for ch
  proof (cases "ch = c")
    case True
    with chs c Cons.prems(3) show ?thesis by simp
  next
    case False
    with chs that Cons.prems(3) show ?thesis by simp
  qed
  with r sr bl ln show ?case
    by (simp add: g1 g2 ts)
qed

lemma concatLoop_ok:
  assumes "\<forall>b\<in>set bufs. length (channels b) = nch \<and>
                          list_all (\<lambda>c. length c = buf_length b) (channels b)"
    and "length (channels mb) = nch"
    and "\<forall>ch<nch. channels mb ! ch = pre ch @ replicate (sum_list (map buf_length bufs)) 0"
    and "\<forall>ch<nch. length (pre ch) = offset"
  shows "\<exists>mb'. concatLoop nch bufs offset mb = Inr mb' \<and>
           sampleRate mb' = sampleRate mb \<and> buf_length mb' = buf_length mb \<and>
           length (channels mb') = nch \<and>
           (\<forall>ch<nch. channels mb' ! ch = pre ch @ concat (map (\<lambda>b. channels b ! ch) bufs))"
  using assms
proof (induction bufs arbitrary: offset mb pre)
  case Nil
  then show ?case by simp
next
  case (Cons b bufs)
  let ?rest = "sum_list (map buf_length bufs)"
  from Cons.prems(1) have bn: "length (channels b) = nch"
    and bl: "\<forall>ch<nch. length (channels b ! ch) = buf_length b"
    by (simp_all add: list_all_length)
  have fit: "\<forall>ch<nch. offset + length (channels b ! ch) \<le> length (channels mb ! ch)"
    using Cons.prems(3,4) bl by simp
  from copyChannels_ok[of "[0..<nch]" nch mb b offset, OF _ _ Cons.prems(2) bn fit]
  obtain mb1 where c1: "copyChannels b offset [0..<nch] mb = Inr mb1"
    and sr1: "sampleRate mb1 = sampleRate mb" and bl1: "buf_length mb1 = buf_length mb"
    and ln1: "length (channels mb1) = nch"
    and ch1: "\<forall>ch<nch. channels mb1 ! ch =
               take offset (channels mb ! ch) @ channels b ! ch @
               drop (offset + length (channels b ! ch)) (channels mb ! ch)"
    by auto
  have ch1': "\<forall>ch<nch. channels mb1 ! ch = (pre ch @ channels b ! ch) @ replicate ?rest 0"
    using ch1 Cons.prems(3,4) bl by simp
  have "\<exists>mb'. concatLoop nch bufs (offset + buf_length b) mb1 = Inr mb' \<and>
           sampleRate mb' = sampleRate mb1 \<and> buf_length mb' = buf_length mb1 \<and>
           length (channels mb') = nch \<and>
           (\<forall>ch<nch. channels mb' ! ch =
              (pre ch @ channels b ! ch) @ concat (map (\<lambda>b. channels b ! ch) bufs))"
  proof (rule Cons.IH)
    show "\<forall>b\<in>set bufs. length (channels b) = nch \<and>
                          list_all (\<lambda>c. length c = buf_length b) (channels b)"
      using Cons.prems(1) by simp
    show "length (channels mb1) = nch" by fact
    show "\<forall>ch<nch. channels mb1 ! ch = (pre ch @ channels b ! ch) @ replicate ?rest 0"
      by fact
    show "\<forall>ch<nch. length (pre ch @ channels b ! ch) = offset + buf_length b"
      using Cons.prems(4) bl by simp
  qed
  then show ?case
    using c1 sr1 bl1 by auto
qed

lemma concatBuffers_ok:
  assumes "bufs \<noteq> []" and "0 < nch" and "0 < rate"
    and "\<forall>b\<in>set bufs. 0 < buf_length b \<and> length (channels b) = nch \<and>
                          list_all (\<lambda>c. length c = buf_length b) (channels b)"
  shows "\<exists>merged. concatBuffers nch (sum_list (map buf_length bufs)) rate bufs = Inr merged \<and>
           sampleRate merged = rate \<and> buf_length merged = sum_list (map buf_length bufs) \<and>
           channels merged = map (\<lambda>ch. concat (map (\<lambda>b. channels b ! ch) bufs)) [0..<nch]"
proof -
  define T where "T = sum_list (map buf_length bufs)"
  from assms(1,4) have "0 < T"
    unfolding T_def by (cases bufs) auto
  let ?mb = "\<lparr>sampleRate = rate, buf_length = T, channels = replicate nch (replicate T 0)\<rparr>"
  have cb: "createBuffer nch (int T) rate = Inr ?mb"
    using \<open>0 < T\<close> assms(2,3) by (simp add: createBuffer_def)
  have "\<exists>mb'. concatLoop nch bufs 0 ?mb = Inr mb' \<and>
           sampleRate mb' = sampleRate ?mb \<and> buf_length mb' = buf_length ?mb \<and>
           length (channels mb') = nch \<and>
           (\<forall>ch<nch. channels mb' ! ch = [] @ concat (map (\<lambda>b. channels b ! ch) bufs))"
    using assms(4) by (intro concatLoop_ok) (simp_all add: T_def)
  then obtain mb' where r: "concatLoop nch bufs 0 ?mb = Inr mb'"
    and sr: "sampleRate mb' = rate" and bl: "buf_length mb' = T"
    and ln: "length (channels mb') = nch"
    and ch: "\<forall>ch<nch. channels mb' ! ch = concat (map (\<lambda>b. channels b ! ch) bufs)"
    by auto
  have "channels mb' = map (\<lambda>ch. concat (map (\<lambda>b. channels b ! ch) bufs)) [0..<nch]"
    using ln ch by (intro nth_equalityI) simp_all
  with r sr bl have "concatBuffers nch T rate bufs = Inr mb' \<and>
           sampleRate mb' = rate \<and> buf_length mb' = T \<and>
           channels mb' = map (\<lambda>ch. concat (map (\<lambda>b. channels b ! ch) bufs)) [0..<nch]"
    by (simp add: concatBuffers_def cb)
  then show ?thesis
    unfolding T_def by blast
qed

text \<open>
  C6. For two or more decoded buffers that all have the first buffer's sample rate and
  channel count, validation accepts them with the sum of their lengths, and the merged
  buffer has that length and, in each channel, the inputs' channels concatenated in input
  order; the blob \<open>mergeAudioFiles\<close> returns is the encoding of that buffer.
\<close>

theorem merge_concatenates:
  assumes "2 \<le> length bufs"
    and "\<forall>b\<in>set bufs. wf_buffer b \<and> sampleRate b = sampleRate (hd bufs) \<and>
                          numberOfChannels b = numberOfChannels (hd bufs)"
  shows "\<exists>merged.
           validateLoop (sampleRate (hd bufs)) (numberOfChannels (hd bufs)) bufs 0
             = Inr (sum_list (map buf_length bufs)) \<and>
           concatBuffers (numberOfChannels (hd bufs)) (sum_list (map buf_length bufs))
               (sampleRate (hd bufs)) bufs = Inr merged \<and>
           buf_length merged = sum_list (map buf_length bufs) \<and>
           sampleRate merged = sampleRate (hd bufs) \<and>
           channels merged =
             map (\<lambda>ch. concat (map (\<lambda>b. channels b ! ch) bufs))
               [0..<numberOfChannels (hd bufs)] \<and>
           (\<forall>files. map (decodeAudio decodeAudioData) files = map Inr bufs \<longrightarrow>
              snd (mergeAudioFiles decodeAudioData lamejs_global files)
                = encodeMp3 lamejs_global merged)"
proof -
  let ?rate = "sampleRate (hd bufs)" and ?nch = "numberOfChannels (hd bufs)"
  let ?T = "sum_list (map buf_length bufs)"
  from assms(1) obtain b0 rest where bufs: "bufs = b0 # rest"
    by (cases bufs) auto
  have v: "validateLoop ?rate ?nch bufs 0 = Inr ?T"
    using validateLoop_ok[of bufs ?rate ?nch 0] assms(2) by simp
  have "wf_buffer (hd bufs)"
    using assms(2) bufs by simp
  then have pos: "0 < ?nch" "0 < ?rate"
    by (simp_all add: wf_buffer_def numberOfChannels_def)
  have "\<forall>b\<in>set bufs. 0 < buf_length b \<and> length (channels b) = ?nch \<and>
                        list_all (\<lambda>c. length c = buf_length b) (channels b)"
    using assms(2) by (auto simp: wf_buffer_def numberOfChannels_def)
  from concatBuffers_ok[OF _ pos this] bufs obtain merged where
    c: "concatBuffers ?nch ?T ?rate bufs = Inr merged"
    and m: "sampleRate merged = ?rate" "buf_length merged = ?T"
      "channels merged = map (\<lambda>ch. concat (map (\<lambda>b. channels b ! ch) bufs)) [0..<?nch]"
    by auto
  have "snd (mergeAudioFiles decodeAudioData lamejs_global files)
          = encodeMp3 lamejs_global merged"
    if d: "map (decodeAudio decodeAudioData) files = map Inr bufs" for files
  proof -
    from d have "length files = length bufs"
      by (metis length_map)
    with assms(1) have n: "\<not> length files < 2" by simp
    from decodeLoop_ok[OF d, of "length files" 0 _ "[]"] obtain msgs' where
      "decodeLoop decodeAudioData (length files) 0 files
         [''Step 1/'' @ string_of_nat (length files + 2) @ '': Decoding audio files...''] []
       = (msgs', Inr bufs)"
      by auto
    then show ?thesis
      using n v c bufs by (simp add: mergeAudioFiles_def Let_def)
  qed
  with v c m show ?thesis by blast
qed

theorem merge_concatenates_witness:
  "\<exists>merged.
     concatBuffers 1 3000 16000
       [\<lparr>sampleRate = 16000, buf_length = 1000, channels = [replicate 1000 (1 / 2)]\<rparr>,
        \<lparr>sampleRate = 16000, buf_length = 2000, channels = [replicate 2000 (- 1 / 4)]\<rparr>]
       = Inr merged \<and>
     buf_length merged = 3000 \<and> sampleRate merged = 16000 \<and>
     channels merged = [replicate 1000 (1 / 2) @ replicate 2000 (- 1 / 4)]"
  using merge_concatenates
    [of "[\<lparr>sampleRate = 16000, buf_length = 1000, channels = [replicate 1000 (1 / 2)]\<rparr>,
          \<lparr>sampleRate = 16000, buf_length = 2000, channels = [replicate 2000 (- 1 / 4)]\<rparr>]"
        "\<lambda>bytes. Inl EncodingError" "None :: unit lamejs option"]
  by (auto simp: wf_buffer_def numberOfChannels_def)

text \<open>
  C7. When the decoded buffers contain one whose sample rate or channel count differs from
  the first buffer's, \<open>mergeAudioFiles\<close> fails at the first such buffer: with the
  sample-rate error naming the first buffer's sample rate when its rate differs, otherwise
  with the channel-count error naming the first buffer's channel count. The last progress
  message is then the validation one: the merging stage, which allocates and copies, is
  never reached. With fewer than two files it fails at once, before any progress message.
\<close>

theorem merge_rejects:
  "(map (decodeAudio decodeAudioData) files = map Inr bufs \<and> 2 \<le> length files \<and>
    k < length bufs \<and>
    (\<forall>j<k. sampleRate (bufs ! j) = sampleRate (hd bufs) \<and>
            numberOfChannels (bufs ! j) = numberOfChannels (hd bufs)) \<and>
    (sampleRate (bufs ! k) \<noteq> sampleRate (hd bufs) \<or>
     numberOfChannels (bufs ! k) \<noteq> numberOfChannels (hd bufs))
    \<longrightarrow>
      snd (mergeAudioFiles decodeAudioData lamejs_global files) =
        (if sampleRate (bufs ! k) \<noteq> sampleRate (hd bufs)
         then Inl (Error (''Mismatched sample rates. All files must have a sample rate of '' @
                          string_of_nat (sampleRate (hd bufs)) @ '' Hz.''))
         else Inl (Error (''Mismatched channel counts. All files must have '' @
                          string_of_nat (numberOfChannels (hd bufs)) @ '' channel(s).''))) \<and>
      length (fst (mergeAudioFiles decodeAudioData lamejs_global files)) = length files + 2 \<and>
      last (fst (mergeAudioFiles decodeAudioData lamejs_global files)) =
        ''Step '' @ string_of_nat (length files + 1) @ ''/'' @
        string_of_nat (length files + 2) @ '': Validating audio properties...'') \<and>
   (length files < 2 \<longrightarrow>
      mergeAudioFiles decodeAudioData lamejs_global files =
        ([], Inl (Error ''At least two files are required to merge.'')))"
proof (intro conjI impI)
  assume "length files < 2"
  then show "mergeAudioFiles decodeAudioData lamejs_global files =
        ([], Inl (Error ''At least two files are required to merge.''))"
    by (simp add: mergeAudioFiles_def)
next
  assume a: "map (decodeAudio decodeAudioData) files = map Inr bufs \<and> 2 \<le> length files \<and>
    k < length bufs \<and>
    (\<forall>j<k. sampleRate (bufs ! j) = sampleRate (hd bufs) \<and>
            numberOfChannels (bufs ! j) = numberOfChannels (hd bufs)) \<and>
    (sampleRate (bufs ! k) \<noteq> sampleRate (hd bufs) \<or>
     numberOfChannels (bufs ! k) \<noteq> numberOfChannels (hd bufs))"
  let ?rate = "sampleRate (hd bufs)" and ?nch = "numberOfChannels (hd bufs)"
  let ?e = "if sampleRate (bufs ! k) \<noteq> ?rate
         then Error (''Mismatched sample rates. All files must have a sample rate of '' @
                          string_of_nat ?rate @ '' Hz.'')
         else Error (''Mismatched channel counts. All files must have '' @
                          string_of_nat ?nch @ '' channel(s).'')"
  let ?v = "''Step '' @ string_of_nat (length files + 1) @ ''/'' @
        string_of_nat (length files + 2) @ '': Validating audio properties...''"
  from a have n: "\<not> length files < 2" by simp
  from a obtain b0 rest where bufs: "bufs = b0 # rest"
    by (cases bufs) auto
  from a have d0: "map (decodeAudio decodeAudioData) files = map Inr bufs" by simp
  from decodeLoop_ok[OF d0, of "length files" 0
      "[''Step 1/'' @ string_of_nat (length files + 2) @ '': Decoding audio files...'']" "[]"]
  obtain msgs' where
    d: "decodeLoop decodeAudioData (length files) 0 files
         [''Step 1/'' @ string_of_nat (length files + 2) @ '': Decoding audio files...''] []
       = (msgs', Inr bufs)"
    and l: "length msgs' = 1 + length files"
    by auto
  from a validateLoop_first_mismatch[of k bufs ?rate ?nch 0]
  have "validateLoop ?rate ?nch bufs 0 = Inl ?e"
    by auto
  then have r: "mergeAudioFiles decodeAudioData lamejs_global files = (msgs' @ [?v], Inl ?e)"
    using n d bufs by (simp add: mergeAudioFiles_def Let_def)
  from r show "snd (mergeAudioFiles decodeAudioData lamejs_global files) =
        (if sampleRate (bufs ! k) \<noteq> ?rate
         then Inl (Error (''Mismatched sample rates. All files must have a sample rate of '' @
                          string_of_nat ?rate @ '' Hz.''))
         else Inl (Error (''Mismatched channel counts. All files must have '' @
                          string_of_nat ?nch @ '' channel(s).'')))"
    by simp
  from r l show "length (fst (mergeAudioFiles decodeAudioData lamejs_global files))
      = length files + 2"
    by simp
  from r show "last (fst (mergeAudioFiles decodeAudioData lamejs_global files)) = ?v"
    by simp
qed

lemma replicate_two: "replicate 2 x = [x, x]"
  by (simp add: numeral_2_eq_2)

theorem merge_rejects_witness:
  "snd (mergeAudioFiles decodeHeader (None :: nat lamejs option)
          [\<lparr>file_name = ''a.mp3'', file_bytes = [44100, 1]\<rparr>,
           \<lparr>file_name = ''b.mp3'', file_bytes = [48000, 1]\<rparr>])
     = Inl (Error ''Mismatched sample rates. All files must have a sample rate of 44100 Hz.'') \<and>
   length (fst (mergeAudioFiles decodeHeader (None :: nat lamejs option)
          [\<lparr>file_name = ''a.mp3'', file_bytes = [44100, 1]\<rparr>,
           \<lparr>file_name = ''b.mp3'', file_bytes = [48000, 1]\<rparr>]))
     = 4 \<and>
   snd (mergeAudioFiles decodeHeader (None :: nat lamejs option)
          [\<lparr>file_name = ''a.mp3'', file_bytes = [44100, 1]\<rparr>,
           \<lparr>file_name = ''c.mp3'', file_bytes = [44100, 2]\<rparr>])
     = Inl (Error ''Mismatched channel counts. All files must have 1 channel(s).'') \<and>
   mergeAudioFiles decodeHeader (None :: nat lamejs option)
          [\<lparr>file_name = ''a.mp3'', file_bytes = [44100, 1]\<rparr>]
     = ([], Inl (Error ''At least two files are required to merge.''))"
  using merge_rejects
    [of decodeHeader
        "[\<lparr>file_name = ''a.mp3'', file_bytes = [44100, 1]\<rparr>,
          \<lparr>file_name = ''b.mp3'', file_bytes = [48000, 1]\<rparr>]"
        "[\<lparr>sampleRate = 44100, buf_length = 1, channels = [[0]]\<rparr>,
          \<lparr>sampleRate = 48000, buf_length = 1, channels = [[0]]\<rparr>]"
        1 "None :: nat lamejs option"]
    merge_rejects
    [of decodeHeader
        "[\<lparr>file_name = ''a.mp3'', file_bytes = [44100, 1]\<rparr>,
          \<lparr>file_name = ''c.mp3'', file_bytes = [44100, 2]\<rparr>]"
        "[\<lparr>sampleRate = 44100, buf_length = 1, channels = [[0]]\<rparr>,
          \<lparr>sampleRate = 44100, buf_length = 1, channels = [[0], [0]]\<rparr>]"
        1 "None :: nat lamejs option"]
    merge_rejects
    [of decodeHeader "[\<lparr>file_name = ''a.mp3'', file_bytes = [44100, 1]\<rparr>]" "[]" 0
        "None :: nat lamejs option"]
  by (simp add: decodeAudio_def decodeHeader_def numberOfChannels_def string_of_nat.simps
      replicate_two)

text \<open>
  C9, as amended. A successful \<open>mergeAudioFiles\<close> run over \<open>n\<close> files calls
  \<open>setProgress\<close> exactly \<open>n + 3\<close> times: with the announcement of the decoding stage
  (\<open>Step 1/N\<close>), then one message per file in order, then the validation message
  (\<open>Step n+1/N\<close>) and the merging message (\<open>Step n+2/N\<close>), where \<open>N = n + 2\<close>. A
  successful \<open>processAudioFile\<close> run calls it exactly 4 times, with the messages of its
  four steps.
\<close>

theorem progress_counts:
  "(mergeAudioFiles decodeAudioData lamejs_global files = (msgs, Inr blob) \<longrightarrow>
      msgs =
        [''Step 1/'' @ string_of_nat (length files + 2) @ '': Decoding audio files...''] @
        map (\<lambda>(k, file). ''Decoding '' @ string_of_nat (k + 1) @ ''/'' @
                           string_of_nat (length files) @ '': '' @ file_name file @ ''...'')
          (enumerate 0 files) @
        [''Step '' @ string_of_nat (length files + 1) @ ''/'' @
           string_of_nat (length files + 2) @ '': Validating audio properties...'',
         ''Step '' @ string_of_nat (length files + 2) @ ''/'' @
           string_of_nat (length files + 2) @ '': Merging audio...''] \<and>
      length msgs = length files + 3) \<and>
   (processAudioFile decodeAudioData lamejs_global file settings = Some (msgs', Inr blob') \<longrightarrow>
      (\<exists>n. 0 < n \<and>
         msgs' =
           [''Step 1/4: Decoding audio...'', ''Step 2/4: Analyzing for speech...'',
            ''Step 3/4: Reconstructing audio with pauses... (found '' @ string_of_nat n @
              '' phrases)'',
            ''Step 4/4: Encoding final MP3 file...'']) \<and>
      length msgs' = 4)"
proof (intro conjI impI)
  assume m: "mergeAudioFiles decodeAudioData lamejs_global files = (msgs, Inr blob)"
  let ?h = "[''Step 1/'' @ string_of_nat (length files + 2) @ '': Decoding audio files...'']"
  let ?t = "[''Step '' @ string_of_nat (length files + 1) @ ''/'' @
           string_of_nat (length files + 2) @ '': Validating audio properties...'',
         ''Step '' @ string_of_nat (length files + 2) @ ''/'' @
           string_of_nat (length files + 2) @ '': Merging audio...'']"
  from m obtain msgs2 bufs where
    d: "decodeLoop decodeAudioData (length files) 0 files ?h [] = (msgs2, Inr bufs)"
    and r: "msgs = msgs2 @ ?t"
    by (auto simp: mergeAudioFiles_def Let_def
        split: if_splits prod.splits sum.splits list.splits)
  from decodeLoop_messages[OF d] r
  show "msgs = ?h @
        map (\<lambda>(k, file). ''Decoding '' @ string_of_nat (k + 1) @ ''/'' @
                           string_of_nat (length files) @ '': '' @ file_name file @ ''...'')
          (enumerate 0 files) @ ?t"
    by simp
  from decodeLoop_length[OF d] r show "length msgs = length files + 3"
    by simp
next
  assume p: "processAudioFile decodeAudioData lamejs_global file settings = Some (msgs', Inr blob')"
  then show "\<exists>n. 0 < n \<and>
         msgs' =
           [''Step 1/4: Decoding audio...'', ''Step 2/4: Analyzing for speech...'',
            ''Step 3/4: Reconstructing audio with pauses... (found '' @ string_of_nat n @
              '' phrases)'',
            ''Step 4/4: Encoding final MP3 file...'']"
    by (auto simp: processAudioFile_def Let_def
        split: if_splits sum.splits option.splits)
  from p show "length msgs' = 4"
    by (auto simp: processAudioFile_def Let_def
        split: if_splits sum.splits option.splits)
qed

lemma merge_two_files_run:
  "mergeAudioFiles
     (decodeTo \<lparr>sampleRate = 8000, buf_length = 2, channels = [[0, 1 / 2]]\<rparr>)
     (Some silentEncoder)
     [\<lparr>file_name = ''a.mp3'', file_bytes = []\<rparr>, \<lparr>file_name = ''b.mp3'', file_bytes = []\<rparr>]
   = ([''Step 1/4: Decoding audio files...'', ''Decoding 1/2: a.mp3...'',
       ''Decoding 2/2: b.mp3...'', ''Step 3/4: Validating audio properties...'',
       ''Step 4/4: Merging audio...''],
      Inr \<lparr>blob_parts = [], blob_type = ''audio/mpeg''\<rparr>)"
  by (simp add: mergeAudioFiles_def decodeAudio_def decodeTo_def silentEncoder_def
      string_of_nat.simps numberOfChannels_def concatBuffers_def createBuffer_def
      getChannelData_def ta_set_def encodeMp3_def convertBuffer_def toInt16_def js_trunc_def
      encodeBlocks.simps subarray_def relativeIndex_def)

lemma pace_one_file_run:
  "processAudioFile
     (decodeTo \<lparr>sampleRate = 8000, buf_length = 2, channels = [[0, 1 / 2]]\<rparr>)
     (Some silentEncoder)
     \<lparr>file_name = ''a.mp3'', file_bytes = []\<rparr>
     \<lparr>silenceThreshold = 7 / 100, minSilenceDuration = 7 / 10, pauseMultiplier = 3 / 2\<rparr>
   = Some ([''Step 1/4: Decoding audio...'', ''Step 2/4: Analyzing for speech...'',
            ''Step 3/4: Reconstructing audio with pauses... (found 1 phrases)'',
            ''Step 4/4: Encoding final MP3 file...''],
           Inr \<lparr>blob_parts = [], blob_type = ''audio/mpeg''\<rparr>)"
proof -
  let ?s = "\<lparr>silenceThreshold = 7 / 100, minSilenceDuration = 7 / 10, pauseMultiplier = 3 / 2\<rparr>"
  let ?lame = "(Some silentEncoder)"
  have h32: "fl64 (3 / 2) = 3 / 2" using fl64_dyadic[of "3 / 2" 1 3] by simp
  have h52: "fl64 (5 / 2) = 5 / 2" using fl64_dyadic[of "5 / 2" 1 5] by simp
  have d: "detectSpeechChunks \<lparr>sampleRate = 8000, buf_length = 2, channels = [[0, 1 / 2]]\<rparr> ?s
           = Some (Inr [\<lparr>start = 1, end' = 2\<rparr>])"
    by (simp add: detectSpeechChunks_def getChannelData_def numberOfChannels_def
        minSilenceSamples_def scan.simps iteration_def exceedsThreshold_def
        belowThreshold_def getSample_def)
  have p: "createPaddedAudio \<lparr>sampleRate = 8000, buf_length = 2, channels = [[0, 1 / 2]]\<rparr>
             [\<lparr>start = 1, end' = 2\<rparr>] ?s
           = Inr \<lparr>sampleRate = 8000, buf_length = 3, channels = [[1 / 2, 0, 0]]\<rparr>"
    by (simp add: createPaddedAudio_def accumulateLength_def createBuffer_def
        numberOfChannels_def getChannelData_def subarray_def relativeIndex_def js_trunc_def
        ta_set_def js_round_def eval_nat_numeral h32 h52)
  have e: "encodeMp3 ?lame \<lparr>sampleRate = 8000, buf_length = 3, channels = [[1 / 2, 0, 0]]\<rparr>
           = Inr \<lparr>blob_parts = [], blob_type = ''audio/mpeg''\<rparr>"
    by (simp add: encodeMp3_def silentEncoder_def numberOfChannels_def getChannelData_def
        convertBuffer_def toInt16_def js_trunc_def encodeBlocks.simps subarray_def
        relativeIndex_def)
  show ?thesis
    by (simp add: processAudioFile_def decodeAudio_def decodeTo_def d p e
        string_of_nat.simps)
qed

theorem progress_counts_witness:
  "mergeAudioFiles
     (decodeTo \<lparr>sampleRate = 8000, buf_length = 2, channels = [[0, 1 / 2]]\<rparr>)
     (Some silentEncoder)
     [\<lparr>file_name = ''a.mp3'', file_bytes = []\<rparr>, \<lparr>file_name = ''b.mp3'', file_bytes = []\<rparr>]
   = ([''Step 1/4: Decoding audio files...'', ''Decoding 1/2: a.mp3...'',
       ''Decoding 2/2: b.mp3...'', ''Step 3/4: Validating audio properties...'',
       ''Step 4/4: Merging audio...''],
      Inr \<lparr>blob_parts = [], blob_type = ''audio/mpeg''\<rparr>) \<and>
   length [''Step 1/4: Decoding audio files...'', ''Decoding 1/2: a.mp3...'',
       ''Decoding 2/2: b.mp3...'', ''Step 3/4: Validating audio properties...'',
       ''Step 4/4: Merging audio...'']
   = length [\<lparr>file_name = ''a.mp3'', file_bytes = []\<rparr>, \<lparr>file_name = ''b.mp3'', file_bytes = []\<rparr>] + 3 \<and>
   processAudioFile
     (decodeTo \<lparr>sampleRate = 8000, buf_length = 2, channels = [[0, 1 / 2]]\<rparr>)
     (Some silentEncoder)
     \<lparr>file_name = ''a.mp3'', file_bytes = []\<rparr>
     \<lparr>silenceThreshold = 7 / 100, minSilenceDuration = 7 / 10, pauseMultiplier = 3 / 2\<rparr>
   = Some ([''Step 1/4: Decoding audio...'', ''Step 2/4: Analyzing for speech...'',
            ''Step 3/4: Reconstructing audio with pauses... (found 1 phrases)'',
            ''Step 4/4: Encoding final MP3 file...''],
           Inr \<lparr>blob_parts = [], blob_type = ''audio/mpeg''\<rparr>) \<and>
   length [''Step 1/4: Decoding audio...'', ''Step 2/4: Analyzing for speech...'',
            ''Step 3/4: Reconstructing audio with pauses... (found 1 phrases)'',
            ''Step 4/4: Encoding final MP3 file...''] = 4"
  using progress_counts
    [of "(decodeTo \<lparr>sampleRate = 8000, buf_length = 2, channels = [[0, 1 / 2]]\<rparr>)"
        "Some silentEncoder"
        "[\<lparr>file_name = ''a.mp3'', file_bytes = []\<rparr>, \<lparr>file_name = ''b.mp3'', file_bytes = []\<rparr>]"
        "[''Step 1/4: Decoding audio files...'', ''Decoding 1/2: a.mp3...'',
       ''Decoding 2/2: b.mp3...'', ''Step 3/4: Validating audio properties...'',
       ''Step 4/4: Merging audio...'']"
        "\<lparr>blob_parts = [], blob_type = ''audio/mpeg''\<rparr>"
        "\<lparr>file_name = ''a.mp3'', file_bytes = []\<rparr>"
        "\<lparr>silenceThreshold = 7 / 100, minSilenceDuration = 7 / 10, pauseMultiplier = 3 / 2\<rparr>"
        "[''Step 1/4: Decoding audio...'', ''Step 2/4: Analyzing for speech...'',
            ''Step 3/4: Reconstructing audio with pauses... (found 1 phrases)'',
            ''Step 4/4: Encoding final MP3 file...'']"
        "\<lparr>blob_parts = [], blob_type = ''audio/mpeg''\<rparr>"]
    merge_two_files_run pace_one_file_run
  by blast

text \<open>
  C9 as stated fails for the Merge pipeline: a successful run over two files produces
  five messages, not four.
\<close>

theorem progress_counts_counterexample:
  "mergeAudioFiles
     (decodeTo \<lparr>sampleRate = 8000, buf_length = 2, channels = [[0, 1 / 2]]\<rparr>)
     (Some silentEncoder)
     [\<lparr>file_name = ''a.mp3'', file_bytes = []\<rparr>, \<lparr>file_name = ''b.mp3'', file_bytes = []\<rparr>]
   = ([''Step 1/4: Decoding audio files...'', ''Decoding 1/2: a.mp3...'',
       ''Decoding 2/2: b.mp3...'', ''Step 3/4: Validating audio properties...'',
       ''Step 4/4: Merging audio...''],
      Inr \<lparr>blob_parts = [], blob_type = ''audio/mpeg''\<rparr>) \<and>
   length [''Step 1/4: Decoding audio files...'', ''Decoding 1/2: a.mp3...'',
       ''Decoding 2/2: b.mp3...'', ''Step 3/4: Validating audio properties...'',
       ''Step 4/4: Merging audio...'']
   \<noteq> length [\<lparr>file_name = ''a.mp3'', file_bytes = []\<rparr>, \<lparr>file_name = ''b.mp3'', file_bytes = []\<rparr>] + 2"
  using merge_two_files_run by simp

section \<open>The silence window and the 16-bit conversion\<close>

lemma half_not_index: "real k + 1 / 2 \<noteq> real n"
proof
  assume "real k + 1 / 2 = real n"
  then have "real (2 * k + 1) = real (2 * n)" by simp
  then have "2 * k + 1 = 2 * n" by (simp only: of_nat_eq_iff)
  then show False by presburger
qed

lemma floor_half: "\<lfloor>real k + 1 / 2\<rfloor> = int k"
  by linarith

lemma scan_fractional_skip:
  fixes xs :: "real list"
  assumes len: "length xs = 6003" and x0: "xs ! 0 = 1 / 2"
    and quiet: "\<And>k. 1 \<le> k \<Longrightarrow> k \<le> 6000 \<Longrightarrow> xs ! k = 0"
  shows "\<exists>t. scan xs (7 / 100) (11025 / 2) \<lparr>st_i = 0, st_speechStart = - 1, st_chunks = []\<rparr>
               = Some t \<and>
             st_speechStart t = - 1 \<and> st_chunks t = [\<lparr>start = 0, end' = 1\<rparr>]"
proof -
  let ?thr = "7 / 100 :: real" and ?m = "11025 / 2 :: real"
  let ?P = "\<lambda>t. (st_i t = 0 \<and> st_speechStart t = - 1 \<and> st_chunks t = []) \<or>
                (st_i t = 1 \<and> st_speechStart t = 0 \<and> st_chunks t = []) \<or>
                ((\<exists>k::nat. st_i t = real k + 1 / 2) \<and> st_speechStart t = - 1 \<and>
                 st_chunks t = [\<lparr>start = 0, end' = 1\<rparr>])"
  have w1: "fl64 (11027 / 2) = 11027 / 2"
    using fl64_half[of 5513] by simp
  have w2: "fl64 (11029 / 2) = 11029 / 2"
    using fl64_half[of 5514] by simp
  have step: "?P (iteration xs ?thr ?m t) \<and>
                \<lfloor>st_i t\<rfloor> < \<lfloor>st_i (iteration xs ?thr ?m t)\<rfloor>"
    if P: "?P t" and lt: "st_i t < real (length xs)" for t
  proof -
    consider (first) "st_i t = 0" "st_speechStart t = - 1" "st_chunks t = []"
      | (silence) "st_i t = 1" "st_speechStart t = 0" "st_chunks t = []"
      | (dead) k :: nat where "st_i t = real k + 1 / 2" "st_speechStart t = - 1"
          "st_chunks t = [\<lparr>start = 0, end' = 1\<rparr>]"
      using P by blast
    then show ?thesis
    proof cases
      case first
      have ex: "exceedsThreshold xs ?thr (st_i t)"
        using exceedsThreshold_nat[of xs ?thr 0] x0 len first(1) by simp
      then have "\<not> belowThreshold xs ?thr (st_i t)"
        by (rule not_below_and_exceeds)
      with ex first have "iteration xs ?thr ?m t =
          \<lparr>st_i = 1, st_speechStart = 0, st_chunks = []\<rparr>"
        by (simp add: iteration_def Let_def)
      then show ?thesis using first by simp
    next
      case silence
      have nex: "\<not> exceedsThreshold xs ?thr (st_i t)"
        using exceedsThreshold_nat[of xs ?thr 1] quiet[of 1] silence(1) by simp
      have be: "belowThreshold xs ?thr (st_i t)"
        using belowThreshold_nat[of xs ?thr 1] quiet[of 1] len silence(1) by simp
      have la: "lookahead xs ?thr (11027 / 2) 1 = None"
      proof (cases "lookahead xs ?thr (11027 / 2) 1")
        case (Some r)
        from lookahead_SomeD[OF Some] have r: "1 \<le> r" "r < 11027 / 2"
          and ex: "exceedsThreshold xs ?thr r" by simp_all
        from exceedsThresholdD[OF ex] obtain n where
          n: "r = real n" "\<bar>xs ! n\<bar> > ?thr" by blast
        from r n(1) have "1 \<le> n" "n \<le> 6000" by simp_all
        with quiet[of n] n(2) show ?thesis by simp
      qed simp
      have "iteration xs ?thr ?m t =
          \<lparr>st_i = 11029 / 2, st_speechStart = - 1,
           st_chunks = [\<lparr>start = 0, end' = 1\<rparr>]\<rparr>"
        using nex be la silence by (simp add: iteration_def Let_def w1 w2)
      moreover have "11029 / 2 = real 5514 + 1 / 2" by simp
      ultimately have it: "iteration xs ?thr ?m t =
          \<lparr>st_i = real 5514 + 1 / 2, st_speechStart = - 1,
           st_chunks = [\<lparr>start = 0, end' = 1\<rparr>]\<rparr>"
        by (simp only:)
      have "\<lfloor>st_i t\<rfloor> < \<lfloor>real 5514 + 1 / 2\<rfloor>"
        unfolding silence(1) floor_half by simp
      with it show ?thesis
        by (auto simp del: of_nat_numeral intro!: exI[of _ 5514])
    next
      case dead
      have nex: "\<not> exceedsThreshold xs ?thr (st_i t)"
        using half_not_index[of k] dead(1) by (auto dest!: exceedsThresholdD)
      then have "iteration xs ?thr ?m t = t\<lparr>st_i := fl64 (st_i t + 1)\<rparr>"
        using dead(2) by (intro iteration_no_onset) simp_all
      moreover have "st_i t + 1 = real (Suc k) + 1 / 2"
        using dead(1) by simp
      moreover have "fl64 (real (Suc k) + 1 / 2) = real (Suc k) + 1 / 2"
      proof (rule fl64_half)
        from lt dead(1) len have "real k < real 6003" by simp
        then have "k < 6003" by (simp only: of_nat_less_iff)
        then show "Suc k < 2 ^ 52" by simp
      qed
      ultimately have it: "iteration xs ?thr ?m t = t\<lparr>st_i := real (Suc k) + 1 / 2\<rparr>"
        by (simp only:)
      have "\<lfloor>st_i t\<rfloor> < \<lfloor>real (Suc k) + 1 / 2\<rfloor>"
        unfolding dead(1) floor_half by simp
      with it dead(2,3) show ?thesis
        by (auto simp del: of_nat_Suc intro!: exI[of _ "Suc k"])
    qed
  qed
  have "?P \<lparr>st_i = 0, st_speechStart = - 1, st_chunks = []\<rparr>"
    by simp
  from scan_rule[of ?P _ xs ?thr ?m, OF this step] obtain t where
    t: "scan xs ?thr ?m \<lparr>st_i = 0, st_speechStart = - 1, st_chunks = []\<rparr> = Some t"
    and Pt: "?P t" and fin: "\<not> st_i t < real (length xs)" by blast
  from Pt fin len have "st_speechStart t = - 1 \<and> st_chunks t = [\<lparr>start = 0, end' = 1\<rparr>]"
    by auto
  with t show ?thesis by blast
qed

text \<open>
  C8 at a failing input: at 22050 Hz with \<open>minSilenceDuration\<close> 0.25 the window is
  5512.5, not the rounded 5513. After the first confirmed silence \<open>i\<close> is then no longer
  an integer, every later \<open>channelData[i]\<close> is \<open>undefined\<close>, and the speech at samples
  6001 and 6002 of this buffer is lost: the only chunk is \<open>(0, 1)\<close>.
\<close>

theorem unrounded_window_drops_speech:
  "minSilenceSamples
     \<lparr>sampleRate = 22050, buf_length = 6003,
      channels = [[1 / 2] @ replicate 6000 0 @ [1 / 2, 1 / 2]]\<rparr>
     \<lparr>silenceThreshold = 7 / 100, minSilenceDuration = 1 / 4, pauseMultiplier = 1\<rparr>
   = 11025 / 2 \<and>
   js_round (real 22050 * (1 / 4)) = 5513 \<and>
   detectSpeechChunks
     \<lparr>sampleRate = 22050, buf_length = 6003,
      channels = [[1 / 2] @ replicate 6000 0 @ [1 / 2, 1 / 2]]\<rparr>
     \<lparr>silenceThreshold = 7 / 100, minSilenceDuration = 1 / 4, pauseMultiplier = 1\<rparr>
   = Some (Inr [\<lparr>start = 0, end' = 1\<rparr>])"
proof -
  let ?xs = "[1 / 2] @ replicate 6000 0 @ [1 / 2, 1 / 2] :: real list"
  let ?b = "\<lparr>sampleRate = 22050, buf_length = 6003, channels = [?xs]\<rparr>"
  let ?s = "\<lparr>silenceThreshold = 7 / 100, minSilenceDuration = 1 / 4, pauseMultiplier = 1\<rparr>"
  have m: "minSilenceSamples ?b ?s = 11025 / 2"
    using fl64_half[of 5512] by (simp add: minSilenceSamples_def)
  have r: "js_round (real 22050 * (1 / 4)) = 5513"
    by (simp add: js_round_def)
  have "?xs ! k = 0" if "1 \<le> k" "k \<le> 6000" for k
    using that by (simp add: nth_append nth_Cons')
  from scan_fractional_skip[of ?xs, OF _ _ this] obtain t where
    "scan ?xs (7 / 100) (11025 / 2) \<lparr>st_i = 0, st_speechStart = - 1, st_chunks = []\<rparr> = Some t"
    "st_speechStart t = - 1" "st_chunks t = [\<lparr>start = 0, end' = 1\<rparr>]"
    by auto
  then have "detectSpeechChunks ?b ?s = Some (Inr [\<lparr>start = 0, end' = 1\<rparr>])"
    unfolding detectSpeechChunks_def m
    by (simp add: getChannelData_def numberOfChannels_def)
  with m r show ?thesis by blast
qed

lemma js_trunc_bounds:
  assumes "- real_of_int a \<le> v" "v \<le> real_of_int a"
  shows "- a \<le> js_trunc v \<and> js_trunc v \<le> a"
proof (cases "0 \<le> v")
  case True
  then have "js_trunc v = \<lfloor>v\<rfloor>" by (simp add: js_trunc_def)
  moreover have "0 \<le> \<lfloor>v\<rfloor>" using True by simp
  moreover have "\<lfloor>v\<rfloor> \<le> a" using assms(2) by (simp add: floor_le_iff)
  moreover have "0 \<le> a" using True assms(2) by linarith
  ultimately show ?thesis by linarith
next
  case False
  then have "js_trunc v = \<lceil>v\<rceil>" by (simp add: js_trunc_def)
  moreover have "\<lceil>v\<rceil> \<le> 0" using False by (simp add: ceiling_le_iff)
  moreover have "- a \<le> \<lceil>v\<rceil>" using assms(1) by (simp add: le_ceiling_iff)
  moreover have "0 \<le> a" using False assms(1) by linarith
  ultimately show ?thesis by linarith
qed

lemma toInt16_no_wrap:
  assumes "- 32768 \<le> js_trunc v" "js_trunc v < 32768"
  shows "toInt16 v = js_trunc v"
proof (cases "0 \<le> js_trunc v")
  case True
  with assms have "js_trunc v mod 65536 = js_trunc v" by simp
  with assms show ?thesis by (simp add: toInt16_def Let_def)
next
  case False
  with assms have "js_trunc v mod 65536 = js_trunc v + 65536"
    by (smt (verit) mod_add_self2 mod_pos_pos_trivial)
  with False assms show ?thesis by (simp add: toInt16_def Let_def)
qed

lemma toInt16_clamped:
  "toInt16 (max (- 1) (min 1 x) * 32767) = js_trunc (max (- 1) (min 1 x) * 32767) \<and>
   - 32767 \<le> js_trunc (max (- 1) (min 1 x) * 32767) \<and>
   js_trunc (max (- 1) (min 1 x) * 32767) \<le> 32767"
proof -
  let ?v = "max (- 1) (min 1 x) * 32767"
  have "- real_of_int 32767 \<le> ?v" "?v \<le> real_of_int 32767"
    by simp_all
  from js_trunc_bounds[OF this] have b: "- 32767 \<le> js_trunc ?v" "js_trunc ?v \<le> 32767"
    by simp_all
  then have "toInt16 ?v = js_trunc ?v"
    by (intro toInt16_no_wrap) simp_all
  with b show ?thesis by simp
qed

text \<open>
  C10. Every sample is converted to the truncation toward zero of
  \<open>max(-1, min(1, x)) * 32767\<close>; the stored value lies in \<open>[-32767, 32767]\<close>, so the
  16-bit store never wraps and \<open>-32768\<close> never occurs.
\<close>

theorem convertBuffer_clamps:
  "convertBuffer buffer = map (\<lambda>x. js_trunc (max (- 1) (min 1 x) * 32767)) buffer \<and>
   (\<forall>v\<in>set (convertBuffer buffer). - 32767 \<le> v \<and> v \<le> 32767)"
  using toInt16_clamped by (auto simp: convertBuffer_def)

theorem convertBuffer_clamps_witness:
  "convertBuffer [1 / 2, 2, - 3, - 1 / 2, 1 / 65534] = [16383, 32767, - 32767, - 16383, 0] \<and>
   list_all (\<lambda>v. - 32767 \<le> v \<and> v \<le> 32767)
     (convertBuffer [1 / 2, 2, - 3, - 1 / 2, 1 / 65534])"
  using convertBuffer_clamps[of "[1 / 2, 2, - 3, - 1 / 2, 1 / 65534]"]
  by (simp add: js_trunc_def)

end
